theory Spec2Isabelle
  imports Main "HOL-Library.Sublist" "HOL-Library.AList"
begin

section \<open>The raw channel pair (src/channel.ts)\<close>

text \<open>
  A callback of the source is a function called for its side effects. It is embedded as
  a state transformer: \<open>func r v\<close> maps the state before the call to the state after it.
  The state type \<open>'s\<close> is left open here; the default callback \<open>(_) => { }\<close> changes
  nothing.

  \<open>ChannelReceiver.on\<close> is the only fallible operation of the repository: its
  \<open>throw Error("cannot subscribe to a receiver more than once.")\<close> is the value
  \<open>Inl AlreadySubscribed\<close>.
\<close>

datatype error = AlreadySubscribed

record ('a, 's) ChannelReceiver =
  subscribed :: bool
  func :: "'a \<Rightarrow> 's \<Rightarrow> 's"

definition ChannelReceiver_new :: "('a, 's) ChannelReceiver" where
  "ChannelReceiver_new = \<lparr>subscribed = False, func = (\<lambda>_ s. s)\<rparr>"

definition ChannelReceiver_on ::
  "('a \<Rightarrow> 's \<Rightarrow> 's) \<Rightarrow> ('a, 's) ChannelReceiver \<Rightarrow> error + ('a, 's) ChannelReceiver" where
  "ChannelReceiver_on f r =
     (if subscribed r = False then Inr (r\<lparr>ChannelReceiver.func := f\<rparr>)
      else Inl AlreadySubscribed)"

definition ChannelReceiver_dispatch :: "('a, 's) ChannelReceiver \<Rightarrow> 'a \<Rightarrow> 's \<Rightarrow> 's" where
  "ChannelReceiver_dispatch r v = ChannelReceiver.func r v"

text \<open>
  \<open>channel()\<close> builds a receiver and a sender whose function is
  \<open>(value) => receiver.dispatch(value)\<close>. The sender holds no state of its own, so a send
  is a dispatch on the receiver as it is at the time of the call.
\<close>

definition channel :: "('a, 's) ChannelReceiver" where
  "channel = ChannelReceiver_new"

definition ChannelSender_send :: "('a, 's) ChannelReceiver \<Rightarrow> 'a \<Rightarrow> 's \<Rightarrow> 's" where
  "ChannelSender_send receiver v = ChannelReceiver_dispatch receiver v"

text \<open>Calling \<open>on\<close> with each callback of a list in turn; the first error ends the run.\<close>

fun on_each ::
  "('a \<Rightarrow> 's \<Rightarrow> 's) list \<Rightarrow> ('a, 's) ChannelReceiver \<Rightarrow> error + ('a, 's) ChannelReceiver" where
  "on_each [] r = Inr r"
| "on_each (f # fs) r =
     (case ChannelReceiver_on f r of Inl e \<Rightarrow> Inl e | Inr r' \<Rightarrow> on_each fs r')"

section \<open>Envelopes, actors and the addressed sender and receiver\<close>

record 'v SystemMessage =
  msg_from :: string
  msg_to :: string
  msg_value :: 'v

text \<open>
  The code of an actor is not part of the repository; only the interface
  \<open>Actor.run(sender, receiver)\<close> is. What an actor or a receiver callback does to the
  system is a list of calls, performed in order: \<open>sender.send(to, value)\<close> on its own
  sender, \<open>receiver.on(func)\<close> on its own receiver, and \<open>system.stop()\<close> (as the callback
  of the repository's test does). An actor is what its \<open>run\<close> does.
\<close>

datatype 'v action =
  Send string 'v
| Stop
| On "string \<Rightarrow> 'v \<Rightarrow> 'v action list"

type_synonym 'v callback = "string \<Rightarrow> 'v \<Rightarrow> 'v action list"

type_synonym 'v Actor = "'v action list"

text \<open>
  \<open>Sender\<close> and \<open>Receiver\<close> each hold an address and one end of a raw channel. The raw
  ends are private and are subscribed exactly once, where they are created: the outbound
  receiver \<open>rx0\<close> by the router handler in \<open>start_system\<close> and \<open>start_actors\<close>, the inbound
  receiver \<open>rx1\<close> by the constructor of \<open>Receiver\<close>. They are therefore not fields of the
  records below: a send on \<open>tx0\<close> is the router handler (\<open>router\<close>), a send on \<open>tx1\<close> is
  the constructor's closure (\<open>deliver\<close>).
\<close>

record Sender =
  address :: string

record 'v Receiver =
  address :: string
  func :: "'v callback"

definition Receiver_new :: "string \<Rightarrow> 'v Receiver" where
  "Receiver_new a = \<lparr>Receiver.address = a, func = (\<lambda>_ _. [])\<rparr>"

definition Receiver_on :: "'v callback \<Rightarrow> 'v Receiver \<Rightarrow> 'v Receiver" where
  "Receiver_on f r = r\<lparr>Receiver.func := f\<rparr>"

text \<open>
  The closure \<open>(message) => this.func(message.from, message.value)\<close> that the constructor
  subscribes: it reads \<open>this.func\<close> when it is called.
\<close>

definition Receiver_unwrap :: "'v Receiver \<Rightarrow> 'v SystemMessage \<Rightarrow> 'v action list" where
  "Receiver_unwrap r message = Receiver.func r (msg_from message) (msg_value message)"

section \<open>The system, the heap and the host's timers\<close>

text \<open>
  The callbacks given to \<open>setTimeout\<close>: the deferred submission of \<open>Sender.send\<close>, the
  \<open>async\<close> body of a drain loop for an address and its inbound channel, and the
  continuation of that body after \<open>await delay(1)\<close>, which has captured the array
  \<open>messages\<close>.
\<close>

datatype 'v task =
  Submit "'v SystemMessage"
| LoopStart string nat
| LoopResume nat nat

text \<open>
  The trace records what an observer of the program sees: each envelope built by
  \<open>Sender.send\<close>, each call of \<open>Actor.run\<close> (mounted address, actor, sender and receiver),
  and each envelope a drain loop hands to a receiver (array, receiver, envelope). No
  operation of the system reads it.
\<close>

datatype 'v event =
  Sent "'v SystemMessage"
| Ran string "'v Actor" Sender nat
| Delivered nat nat "'v SystemMessage"

text \<open>
  One \<open>System\<close> instance with the objects it reaches. \<open>messages\<close> maps an address to a
  reference into \<open>arrays\<close>, since a drain loop keeps the array it read from the map when
  it began, also after \<open>mount\<close> has put a new array at that address. \<open>actors\<close> is a
  \<open>Map\<close> iterated in insertion order. \<open>receivers\<close> holds the addressed \<open>Receiver\<close>
  objects. \<open>timers\<close> is the host's timer queue, each entry with its delay: every timer of
  the program has delay 1, the host runs timers of equal delay in the order they were
  set, and the continuation after \<open>await\<close> runs when its timer does.
\<close>

record 'v state =
  address :: string
  messages :: "string \<rightharpoonup> nat"
  actors :: "(string \<times> 'v Actor) list"
  started :: bool
  arrays :: "nat \<Rightarrow> 'v SystemMessage list"
  next_array :: nat
  receivers :: "nat \<Rightarrow> 'v Receiver"
  next_receiver :: nat
  timers :: "(nat \<times> 'v task) list"
  trace :: "'v event list"

definition setTimeout :: "'v task \<Rightarrow> nat \<Rightarrow> 'v state \<Rightarrow> 'v state" where
  "setTimeout callback ms s = s\<lparr>timers := timers s @ [(ms, callback)]\<rparr>"

definition Sender_send :: "Sender \<Rightarrow> string \<Rightarrow> 'v \<Rightarrow> 'v state \<Rightarrow> 'v state" where
  "Sender_send sender dest v s =
     (let message = \<lparr>msg_from = Sender.address sender, msg_to = dest, msg_value = v\<rparr>
      in setTimeout (Submit message) 1 (s\<lparr>trace := trace s @ [Sent message]\<rparr>))"

definition System_new :: "string \<Rightarrow> 'v state" where
  "System_new a =
     \<lparr>address = a, messages = [a \<mapsto> 0], actors = [], started = False,
      arrays = (\<lambda>_. []), next_array = 1,
      receivers = (\<lambda>_. Receiver_new []), next_receiver = 0,
      timers = [], trace = []\<rparr>"

definition System_mount :: "string \<Rightarrow> 'v Actor \<Rightarrow> 'v state \<Rightarrow> 'v state" where
  "System_mount a actor s =
     s\<lparr>actors := AList.update a actor (actors s),
       messages := (messages s)(a \<mapsto> next_array s),
       arrays := (arrays s)(next_array s := []),
       next_array := Suc (next_array s)\<rparr>"

definition System_stop :: "'v state \<Rightarrow> 'v state" where
  "System_stop s = s\<lparr>started := False\<rparr>"

text \<open>\<open>Receiver.on\<close> on the receiver object at \<open>rx\<close>.\<close>

definition Receiver_on_at :: "nat \<Rightarrow> 'v callback \<Rightarrow> 'v state \<Rightarrow> 'v state" where
  "Receiver_on_at rx f s = s\<lparr>receivers := (receivers s)(rx := Receiver_on f (receivers s rx))\<rparr>"

text \<open>The calls an actor makes, with the sender and the receiver it was given.\<close>

fun perform :: "Sender \<Rightarrow> nat \<Rightarrow> 'v action \<Rightarrow> 'v state \<Rightarrow> 'v state" where
  "perform sender rx (Send dest v) s = Sender_send sender dest v s"
| "perform sender rx Stop s = System_stop s"
| "perform sender rx (On f) s = Receiver_on_at rx f s"

definition perform_all :: "Sender \<Rightarrow> nat \<Rightarrow> 'v action list \<Rightarrow> 'v state \<Rightarrow> 'v state" where
  "perform_all sender rx acts s = fold (perform sender rx) acts s"

text \<open>
  The router handler subscribed on every outbound channel:
  \<open>if (this.messages.has(message.to)) this.messages.get(message.to).push(message)\<close>.
\<close>

definition router :: "'v SystemMessage \<Rightarrow> 'v state \<Rightarrow> 'v state" where
  "router message s =
     (case messages s (msg_to message) of
        Some r \<Rightarrow> s\<lparr>arrays := (arrays s)(r := arrays s r @ [message])\<rparr>
      | None \<Rightarrow> s)"

text \<open>
  \<open>tx1.send(message)\<close>: the inbound channel calls the closure of the receiver, which
  calls the callback registered last; the callback acts through the sender and the
  receiver of the same address.
\<close>

definition deliver :: "nat \<Rightarrow> 'v SystemMessage \<Rightarrow> 'v state \<Rightarrow> 'v state" where
  "deliver rx message s =
     perform_all \<lparr>Sender.address = Receiver.address (receivers s rx)\<rparr> rx
       (Receiver_unwrap (receivers s rx) message) s"

text \<open>
  The inner loop \<open>while (messages.length > 0) { tx1.send(messages.shift()) }\<close> on the
  captured array \<open>r\<close>.
\<close>

function drain :: "nat \<Rightarrow> nat \<Rightarrow> 'v state \<Rightarrow> 'v state" where
  "drain r rx s =
     (case arrays s r of
        [] \<Rightarrow> s
      | message # rest \<Rightarrow>
          drain r rx
            (deliver rx message
               (s\<lparr>arrays := (arrays s)(r := rest),
                  trace := trace s @ [Delivered r rx message]\<rparr>)))"
  by pat_completeness auto
termination
proof (relation "measure (\<lambda>(r, rx, s). length (arrays s r))")
  show "wf (measure (\<lambda>(r, rx, s::'v state). length (arrays s r)))"
    by simp
next
  fix r rx :: nat and s :: "'v state" and message rest
  assume nonempty: "arrays s r = message # rest"
  have one: "arrays (perform sender rx act t) = arrays t"
    for sender act and t :: "'v state"
    by (cases act)
      (simp_all add: Sender_send_def setTimeout_def System_stop_def Receiver_on_at_def Let_def)
  have many: "arrays (fold (perform sender rx) acts t) = arrays t"
    for sender acts and t :: "'v state"
    by (induction acts arbitrary: t) (simp_all add: one)
  show "((r, rx, deliver rx message
           (s\<lparr>arrays := (arrays s)(r := rest),
              trace := trace s @ [Delivered r rx message]\<rparr>)), (r, rx, s))
        \<in> measure (\<lambda>(r, rx, s). length (arrays s r))"
    using nonempty by (simp add: deliver_def perform_all_def many)
qed

text \<open>
  The head of the outer loop, \<open>while (this.started) { await delay(1) ... }\<close>: when the flag
  is set the body suspends on a timer of delay 1, otherwise the loop is over.
\<close>

definition loop_check :: "nat \<Rightarrow> nat \<Rightarrow> 'v state \<Rightarrow> 'v state" where
  "loop_check r rx s = (if started s then setTimeout (LoopResume r rx) 1 s else s)"

text \<open>
  Running one timer callback. The body of a loop first reads the array of its address
  from \<open>messages\<close>. In every state the system reaches the address has one
  (\<open>loops_have_mailbox\<close> below), so the \<open>None\<close> branch is never taken; the model
  lets the loop end there.
\<close>

fun run_task :: "'v task \<Rightarrow> 'v state \<Rightarrow> 'v state" where
  "run_task (Submit message) s = router message s"
| "run_task (LoopStart a rx) s =
     (case messages s a of Some r \<Rightarrow> loop_check r rx s | None \<Rightarrow> s)"
| "run_task (LoopResume r rx) s = loop_check r rx (drain r rx s)"

definition tick :: "'v state \<Rightarrow> 'v state" where
  "tick s = (case timers s of [] \<Rightarrow> s | (ms, t) # rest \<Rightarrow> run_task t (s\<lparr>timers := rest\<rparr>))"

text \<open>
  One round of \<open>start_actors\<close> for an entry of \<open>actors\<close>: the channels, the actor's \<open>run\<close>
  with a new sender and receiver, then the timer of the drain loop.
\<close>

definition start_actor :: "string \<times> 'v Actor \<Rightarrow> 'v state \<Rightarrow> 'v state" where
  "start_actor entry s =
     (let a = fst entry; actor = snd entry; rx = next_receiver s;
          sender = \<lparr>Sender.address = a\<rparr>;
          s1 = s\<lparr>receivers := (receivers s)(rx := Receiver_new a),
                 next_receiver := Suc rx,
                 trace := trace s @ [Ran a actor sender rx]\<rparr>;
          s2 = perform_all sender rx actor s1
      in setTimeout (LoopStart a rx) 1 s2)"

definition start_actors :: "'v state \<Rightarrow> 'v state" where
  "start_actors s = fold start_actor (actors s) s"

definition start_system :: "'v state \<Rightarrow> (Sender \<times> nat) \<times> 'v state" where
  "start_system s =
     (let rx = next_receiver s;
          s1 = setTimeout (LoopStart (address s) rx) 1 s;
          sender = \<lparr>Sender.address = address s\<rparr>;
          s2 = s1\<lparr>receivers := (receivers s1)(rx := Receiver_new (address s)),
                  next_receiver := Suc rx\<rparr>
      in ((sender, rx), s2))"

definition System_start :: "'v state \<Rightarrow> (Sender \<times> nat) \<times> 'v state" where
  "System_start s = start_system (start_actors (s\<lparr>started := True\<rparr>))"

text \<open>
  What can happen to a system, one step at a time: a call of its interface from outside
  (by the program that built it, or by an actor's own asynchronous code through the
  sender or receiver it was given), or the host running the next timer.
\<close>

datatype 'v op =
  Mount string "'v Actor"
| Start
| StopOp
| SendOp string string 'v
| OnOp nat "'v callback"
| Tick

fun apply_op :: "'v op \<Rightarrow> 'v state \<Rightarrow> 'v state" where
  "apply_op (Mount a actor) s = System_mount a actor s"
| "apply_op Start s = snd (System_start s)"
| "apply_op StopOp s = System_stop s"
| "apply_op (SendOp a dest v) s = Sender_send \<lparr>Sender.address = a\<rparr> dest v s"
| "apply_op (OnOp rx f) s = (if rx < next_receiver s then Receiver_on_at rx f s else s)"
| "apply_op Tick s = tick s"

definition run :: "'v op list \<Rightarrow> 'v state \<Rightarrow> 'v state" where
  "run ops s = fold apply_op ops s"

section \<open>Observations\<close>

text \<open>The mailbox of an address: the contents of the array that \<open>messages\<close> holds for it.\<close>

definition mailbox :: "'v state \<Rightarrow> string \<Rightarrow> 'v SystemMessage list option" where
  "mailbox s a = map_option (arrays s) (messages s a)"

text \<open>
  The calls of \<open>Actor.run\<close> so far: mounted address, the actor whose \<open>run\<close> it is,
  sender and receiver passed.
\<close>

fun ran_ev :: "'v event \<Rightarrow> (string \<times> 'v Actor \<times> Sender \<times> nat) list" where
  "ran_ev (Ran a actor sender rx) = [(a, actor, sender, rx)]"
| "ran_ev _ = []"

definition ran :: "'v state \<Rightarrow> (string \<times> 'v Actor \<times> Sender \<times> nat) list" where
  "ran s = concat (map ran_ev (trace s))"

text \<open>
  What a list of calls amounts to: the envelopes its sends build, and the callback that
  is registered once its \<open>receiver.on\<close> calls are over.
\<close>

fun send_of :: "Sender \<Rightarrow> 'v action \<Rightarrow> 'v SystemMessage list" where
  "send_of sender (Send dest v) =
     [\<lparr>msg_from = Sender.address sender, msg_to = dest, msg_value = v\<rparr>]"
| "send_of sender _ = []"

definition sends_of :: "Sender \<Rightarrow> 'v action list \<Rightarrow> 'v SystemMessage list" where
  "sends_of sender acts = concat (map (send_of sender) acts)"

fun callback_after :: "'v callback \<Rightarrow> 'v action list \<Rightarrow> 'v callback" where
  "callback_after f [] = f"
| "callback_after f (On g # acts) = callback_after g acts"
| "callback_after f (_ # acts) = callback_after f acts"

text \<open>
  Oldest first, as the specification words it: for each envelope of a list in turn, the
  callback that the receiver \<open>rx\<close> holds at that moment is called with the envelope's
  \<open>(from, value)\<close> and what it does is done, before the next envelope is taken. The
  drain loop of the source is compared with this in \<open>drain_call_in_order\<close>.
\<close>

definition call_in_order ::
  "nat \<Rightarrow> nat \<Rightarrow> 'v SystemMessage list \<Rightarrow> 'v state \<Rightarrow> 'v state" where
  "call_in_order r rx ms s =
     fold (\<lambda>message t.
        perform_all \<lparr>Sender.address = Receiver.address (receivers t rx)\<rparr> rx
          (Receiver.func (receivers t rx) (msg_from message) (msg_value message))
          (t\<lparr>trace := trace t @ [Delivered r rx message]\<rparr>)) ms s"

text \<open>
  Every array the map \<open>messages\<close> points to has been allocated.
\<close>

definition refs_ok :: "'v state \<Rightarrow> bool" where
  "refs_ok s \<longleftrightarrow> (\<forall>b r. messages s b = Some r \<longrightarrow> r < next_array s)"

text \<open>
  Projections of the trace and of the timer queue: the envelopes sent so far, the
  envelopes shifted out of the array \<open>r\<close>, the envelopes handed to the receiver \<open>rx\<close>,
  and the envelopes whose submission is still waiting on a timer, each in order.
\<close>

fun sent_ev :: "'v event \<Rightarrow> 'v SystemMessage list" where
  "sent_ev (Sent message) = [message]"
| "sent_ev _ = []"

fun drained_ev :: "nat \<Rightarrow> 'v event \<Rightarrow> 'v SystemMessage list" where
  "drained_ev r (Delivered r' rx message) = (if r' = r then [message] else [])"
| "drained_ev r _ = []"

fun observed_ev :: "nat \<Rightarrow> 'v event \<Rightarrow> 'v SystemMessage list" where
  "observed_ev rx (Delivered r rx' message) = (if rx' = rx then [message] else [])"
| "observed_ev rx _ = []"

fun pending_task :: "nat \<times> 'v task \<Rightarrow> 'v SystemMessage list" where
  "pending_task (ms, Submit message) = [message]"
| "pending_task _ = []"

definition sent :: "'v state \<Rightarrow> 'v SystemMessage list" where
  "sent s = concat (map sent_ev (trace s))"

definition drained :: "nat \<Rightarrow> 'v state \<Rightarrow> 'v SystemMessage list" where
  "drained r s = concat (map (drained_ev r) (trace s))"

definition observed :: "nat \<Rightarrow> 'v state \<Rightarrow> 'v SystemMessage list" where
  "observed rx s = concat (map (observed_ev rx) (trace s))"

definition pending :: "'v state \<Rightarrow> 'v SystemMessage list" where
  "pending s = concat (map pending_task (timers s))"

text \<open>The envelopes addressed to \<open>b\<close>, and those from \<open>a\<close> to \<open>b\<close>.\<close>

definition to_address :: "string \<Rightarrow> 'v SystemMessage list \<Rightarrow> 'v SystemMessage list" where
  "to_address b ms = filter (\<lambda>message. msg_to message = b) ms"

definition between :: "string \<Rightarrow> string \<Rightarrow> 'v SystemMessage list \<Rightarrow> 'v SystemMessage list" where
  "between a b ms = filter (\<lambda>message. msg_from message = a \<and> msg_to message = b) ms"

text \<open>
  The invariant behind the order of delivery. For an array \<open>r\<close> and an address \<open>b\<close>,
  \<open>flow r b\<close> lists the envelopes for \<open>b\<close> that have left \<open>r\<close>, those still in
  \<open>r\<close>, and, when \<open>r\<close> is the mailbox of \<open>b\<close>, those still waiting on a timer: in
  every reachable state this is a subsequence of the envelopes sent to \<open>b\<close>.
\<close>

definition resumes_ok :: "'v state \<Rightarrow> bool" where
  "resumes_ok s \<longleftrightarrow> (\<forall>ms r rx. (ms, LoopResume r rx) \<in> set (timers s) \<longrightarrow> r < next_array s)"

definition drained_fresh :: "'v state \<Rightarrow> bool" where
  "drained_fresh s \<longleftrightarrow> (\<forall>r. next_array s \<le> r \<longrightarrow> drained r s = [])"

definition pending_ordered :: "'v state \<Rightarrow> bool" where
  "pending_ordered s \<longleftrightarrow> (\<forall>b. subseq (to_address b (pending s)) (to_address b (sent s)))"

definition flow :: "nat \<Rightarrow> string \<Rightarrow> 'v state \<Rightarrow> 'v SystemMessage list" where
  "flow r b s =
     to_address b (drained r s) @ to_address b (arrays s r) @
       (if messages s b = Some r then to_address b (pending s) else [])"

definition flow_ordered :: "'v state \<Rightarrow> bool" where
  "flow_ordered s \<longleftrightarrow> (\<forall>r b. subseq (flow r b s) (to_address b (sent s)))"

definition fifo_inv :: "'v state \<Rightarrow> bool" where
  "fifo_inv s \<longleftrightarrow>
     refs_ok s \<and> resumes_ok s \<and> drained_fresh s \<and> pending_ordered s \<and> flow_ordered s"

text \<open>
  The drain loops that have a timer pending (by receiver), those that have not begun,
  and the pairs of a receiver and the array its loop drains.
\<close>

fun loop_rx :: "nat \<times> 'v task \<Rightarrow> nat list" where
  "loop_rx (ms, Submit message) = []"
| "loop_rx (ms, LoopStart a rx) = [rx]"
| "loop_rx (ms, LoopResume r rx) = [rx]"

fun start_rx :: "nat \<times> 'v task \<Rightarrow> nat list" where
  "start_rx (ms, LoopStart a rx) = [rx]"
| "start_rx _ = []"

fun feed_task :: "nat \<times> 'v task \<Rightarrow> (nat \<times> nat) list" where
  "feed_task (ms, LoopResume r rx) = [(rx, r)]"
| "feed_task _ = []"

fun feed_ev :: "'v event \<Rightarrow> (nat \<times> nat) list" where
  "feed_ev (Delivered r rx message) = [(rx, r)]"
| "feed_ev _ = []"

definition loops :: "'v state \<Rightarrow> nat list" where
  "loops s = concat (map loop_rx (timers s))"

definition starts :: "'v state \<Rightarrow> nat set" where
  "starts s = set (concat (map start_rx (timers s)))"

definition feeds :: "'v state \<Rightarrow> (nat \<times> nat) set" where
  "feeds s = set (concat (map feed_task (timers s))) \<union> set (concat (map feed_ev (trace s)))"

definition loop_inv :: "'v state \<Rightarrow> bool" where
  "loop_inv s \<longleftrightarrow>
     distinct (loops s) \<and>
     (\<forall>rx \<in> set (loops s). rx < next_receiver s) \<and>
     (\<forall>rx r. (rx, r) \<in> feeds s \<longrightarrow> rx < next_receiver s) \<and>
     (\<forall>rx r r'. (rx, r) \<in> feeds s \<longrightarrow> (rx, r') \<in> feeds s \<longrightarrow> r = r') \<and>
     (\<forall>rx r. rx \<in> starts s \<longrightarrow> (rx, r) \<notin> feeds s)"

text \<open>The state of the system while the loop of the receiver \<open>rx\<close> drains the array \<open>r\<close>.\<close>

definition draining :: "nat \<Rightarrow> nat \<Rightarrow> 'v state \<Rightarrow> bool" where
  "draining r rx s \<longleftrightarrow>
     loop_inv s \<and> rx < next_receiver s \<and> rx \<notin> set (loops s) \<and>
     (\<forall>r'. (rx, r') \<in> feeds s \<longrightarrow> r' = r)"

text \<open>
  The addresses whose drain loop has been set up and has not begun, and the invariant
  that every such address, every mounted address and the system's own address has a
  mailbox.
\<close>

fun start_address :: "nat \<times> 'v task \<Rightarrow> string list" where
  "start_address (ms, LoopStart a rx) = [a]"
| "start_address _ = []"

definition waiting :: "'v state \<Rightarrow> string set" where
  "waiting s = set (concat (map start_address (timers s)))"

definition mailboxes_ok :: "'v state \<Rightarrow> bool" where
  "mailboxes_ok s \<longleftrightarrow>
     address s \<in> dom (messages s) \<and>
     fst ` set (actors s) \<subseteq> dom (messages s) \<and>
     waiting s \<subseteq> dom (messages s)"


definition in_flight :: "nat state" where
  "in_flight =
     run [Mount ''B'' [On (\<lambda>from v. [Send ''C'' v])], Start, SendOp ''A'' ''B'' 1, Tick, Tick, Tick]
       (System_new ''system'')"


definition remounted_in_flight :: "nat state" where
  "remounted_in_flight = System_mount ''B'' [] in_flight"

section \<open>Induction principles for the loops\<close>

declare drain.simps [simp del]

lemma drain_Nil: "arrays s r = [] \<Longrightarrow> drain r rx s = s"
  by (subst drain.simps) simp

lemma drain_Cons:
  "arrays s r = message # rest \<Longrightarrow>
   drain r rx s =
     drain r rx (deliver rx message
       (s\<lparr>arrays := (arrays s)(r := rest), trace := trace s @ [Delivered r rx message]\<rparr>))"
  by (subst drain.simps) simp

lemma perform_all_preserves:
  assumes "P s"
    and "\<And>t act. P t \<Longrightarrow> P (perform sender rx act t)"
  shows "P (perform_all sender rx acts s)"
  using assms(1) unfolding perform_all_def
  by (induction acts arbitrary: s) (simp_all add: assms(2))

lemma drain_preserves:
  assumes "P s"
    and "\<And>t message rest. P t \<Longrightarrow> arrays t r = message # rest \<Longrightarrow>
           P (deliver rx message
               (t\<lparr>arrays := (arrays t)(r := rest),
                  trace := trace t @ [Delivered r rx message]\<rparr>))"
  shows "P (drain r rx s)"
  using assms
proof (induction r rx s rule: drain.induct)
  case (1 r rx s)
  show ?case
  proof (cases "arrays s r")
    case Nil
    then show ?thesis using "1.prems"(1) by (simp add: drain_Nil)
  next
    case (Cons message rest)
    have "P (deliver rx message
               (s\<lparr>arrays := (arrays s)(r := rest),
                  trace := trace s @ [Delivered r rx message]\<rparr>))"
      using "1.prems"(1) Cons by (rule "1.prems"(2))
    then have "P (drain r rx (deliver rx message
               (s\<lparr>arrays := (arrays s)(r := rest),
                  trace := trace s @ [Delivered r rx message]\<rparr>)))"
      using "1.prems"(2) by (rule "1.IH" [OF Cons])
    then show ?thesis
      using Cons by (simp add: drain_Cons)
  qed
qed

lemma start_actors_preserves:
  assumes "P s"
    and "\<And>t entry. P t \<Longrightarrow> P (start_actor entry t)"
  shows "P (fold start_actor entries s)"
  using assms(1) by (induction entries arbitrary: s) (simp_all add: assms(2))

lemma run_preserves:
  assumes "P s"
    and "\<And>t op. P t \<Longrightarrow> P (apply_op op t)"
  shows "P (run ops s)"
  using assms(1) unfolding run_def
  by (induction ops arbitrary: s) (simp_all add: assms(2))

section \<open>What each operation leaves alone\<close>

lemma setTimeout_fields [simp]:
  "address (setTimeout t ms s) = address s"
  "messages (setTimeout t ms s) = messages s"
  "actors (setTimeout t ms s) = actors s"
  "started (setTimeout t ms s) = started s"
  "arrays (setTimeout t ms s) = arrays s"
  "next_array (setTimeout t ms s) = next_array s"
  "receivers (setTimeout t ms s) = receivers s"
  "next_receiver (setTimeout t ms s) = next_receiver s"
  "timers (setTimeout t ms s) = timers s @ [(ms, t)]"
  "trace (setTimeout t ms s) = trace s"
  by (simp_all add: setTimeout_def)

lemma Sender_send_fields [simp]:
  "address (Sender_send sender dest v s) = address s"
  "messages (Sender_send sender dest v s) = messages s"
  "actors (Sender_send sender dest v s) = actors s"
  "started (Sender_send sender dest v s) = started s"
  "arrays (Sender_send sender dest v s) = arrays s"
  "next_array (Sender_send sender dest v s) = next_array s"
  "receivers (Sender_send sender dest v s) = receivers s"
  "next_receiver (Sender_send sender dest v s) = next_receiver s"
  "timers (Sender_send sender dest v s) =
     timers s @ [(1, Submit \<lparr>msg_from = Sender.address sender, msg_to = dest, msg_value = v\<rparr>)]"
  "trace (Sender_send sender dest v s) =
     trace s @ [Sent \<lparr>msg_from = Sender.address sender, msg_to = dest, msg_value = v\<rparr>]"
  by (simp_all add: Sender_send_def Let_def)

lemma System_stop_fields [simp]:
  "address (System_stop s) = address s"
  "messages (System_stop s) = messages s"
  "actors (System_stop s) = actors s"
  "started (System_stop s) = False"
  "arrays (System_stop s) = arrays s"
  "next_array (System_stop s) = next_array s"
  "receivers (System_stop s) = receivers s"
  "next_receiver (System_stop s) = next_receiver s"
  "timers (System_stop s) = timers s"
  "trace (System_stop s) = trace s"
  by (simp_all add: System_stop_def)

lemma Receiver_on_at_fields [simp]:
  "address (Receiver_on_at rx f s) = address s"
  "messages (Receiver_on_at rx f s) = messages s"
  "actors (Receiver_on_at rx f s) = actors s"
  "started (Receiver_on_at rx f s) = started s"
  "arrays (Receiver_on_at rx f s) = arrays s"
  "next_array (Receiver_on_at rx f s) = next_array s"
  "receivers (Receiver_on_at rx f s) = (receivers s)(rx := Receiver_on f (receivers s rx))"
  "next_receiver (Receiver_on_at rx f s) = next_receiver s"
  "timers (Receiver_on_at rx f s) = timers s"
  "trace (Receiver_on_at rx f s) = trace s"
  by (simp_all add: Receiver_on_at_def)

lemma perform_fields [simp]:
  "address (perform sender rx act s) = address s"
  "messages (perform sender rx act s) = messages s"
  "actors (perform sender rx act s) = actors s"
  "arrays (perform sender rx act s) = arrays s"
  "next_array (perform sender rx act s) = next_array s"
  "next_receiver (perform sender rx act s) = next_receiver s"
  by (cases act; simp)+

lemma perform_all_fields [simp]:
  "address (perform_all sender rx acts s) = address s"
  "messages (perform_all sender rx acts s) = messages s"
  "actors (perform_all sender rx acts s) = actors s"
  "arrays (perform_all sender rx acts s) = arrays s"
  "next_array (perform_all sender rx acts s) = next_array s"
  "next_receiver (perform_all sender rx acts s) = next_receiver s"
  by (rule perform_all_preserves; simp)+

lemma deliver_fields [simp]:
  "address (deliver rx message s) = address s"
  "messages (deliver rx message s) = messages s"
  "actors (deliver rx message s) = actors s"
  "arrays (deliver rx message s) = arrays s"
  "next_array (deliver rx message s) = next_array s"
  "next_receiver (deliver rx message s) = next_receiver s"
  by (simp_all add: deliver_def)

lemma drain_fields [simp]:
  "address (drain r rx s) = address s"
  "messages (drain r rx s) = messages s"
  "actors (drain r rx s) = actors s"
  "next_array (drain r rx s) = next_array s"
  "next_receiver (drain r rx s) = next_receiver s"
  by (rule drain_preserves; simp)+

lemma router_fields [simp]:
  "address (router message s) = address s"
  "messages (router message s) = messages s"
  "actors (router message s) = actors s"
  "started (router message s) = started s"
  "next_array (router message s) = next_array s"
  "receivers (router message s) = receivers s"
  "next_receiver (router message s) = next_receiver s"
  "timers (router message s) = timers s"
  "trace (router message s) = trace s"
  by (simp_all add: router_def split: option.split)

lemma loop_check_fields [simp]:
  "address (loop_check r rx s) = address s"
  "messages (loop_check r rx s) = messages s"
  "actors (loop_check r rx s) = actors s"
  "started (loop_check r rx s) = started s"
  "arrays (loop_check r rx s) = arrays s"
  "next_array (loop_check r rx s) = next_array s"
  "receivers (loop_check r rx s) = receivers s"
  "next_receiver (loop_check r rx s) = next_receiver s"
  "trace (loop_check r rx s) = trace s"
  by (simp_all add: loop_check_def)

lemma run_task_fields [simp]:
  "address (run_task t s) = address s"
  "messages (run_task t s) = messages s"
  "actors (run_task t s) = actors s"
  "next_array (run_task t s) = next_array s"
  "next_receiver (run_task t s) = next_receiver s"
  by (cases t; simp split: option.split)+

lemma tick_fields [simp]:
  "address (tick s) = address s"
  "messages (tick s) = messages s"
  "actors (tick s) = actors s"
  "next_array (tick s) = next_array s"
  "next_receiver (tick s) = next_receiver s"
  by (simp_all add: tick_def split: list.split)

lemma start_actor_fields [simp]:
  "address (start_actor entry s) = address s"
  "messages (start_actor entry s) = messages s"
  "actors (start_actor entry s) = actors s"
  "arrays (start_actor entry s) = arrays s"
  "next_array (start_actor entry s) = next_array s"
  "next_receiver (start_actor entry s) = Suc (next_receiver s)"
  by (simp_all add: start_actor_def Let_def)

lemma fold_start_actor_fields [simp]:
  "address (fold start_actor entries s) = address s"
  "messages (fold start_actor entries s) = messages s"
  "actors (fold start_actor entries s) = actors s"
  "arrays (fold start_actor entries s) = arrays s"
  "next_array (fold start_actor entries s) = next_array s"
  by (rule start_actors_preserves; simp)+

lemma next_receiver_fold_start_actor [simp]:
  "next_receiver (fold start_actor entries s) = next_receiver s + length entries"
  by (induction entries arbitrary: s) simp_all

lemma System_start_fields [simp]:
  "address (snd (System_start s)) = address s"
  "messages (snd (System_start s)) = messages s"
  "actors (snd (System_start s)) = actors s"
  "arrays (snd (System_start s)) = arrays s"
  "next_array (snd (System_start s)) = next_array s"
  "next_receiver (snd (System_start s)) = Suc (next_receiver s + length (actors s))"
  by (simp_all add: System_start_def start_system_def start_actors_def Let_def)

lemma System_mount_fields [simp]:
  "address (System_mount a actor s) = address s"
  "started (System_mount a actor s) = started s"
  "receivers (System_mount a actor s) = receivers s"
  "next_receiver (System_mount a actor s) = next_receiver s"
  "timers (System_mount a actor s) = timers s"
  "trace (System_mount a actor s) = trace s"
  "actors (System_mount a actor s) = AList.update a actor (actors s)"
  "messages (System_mount a actor s) = (messages s)(a \<mapsto> next_array s)"
  "arrays (System_mount a actor s) = (arrays s)(next_array s := [])"
  "next_array (System_mount a actor s) = Suc (next_array s)"
  by (simp_all add: System_mount_def)

lemma apply_op_address [simp]: "address (apply_op op s) = address s"
  by (cases op) simp_all

section \<open>What a list of calls does\<close>

lemma sends_of_simps [simp]:
  "sends_of sender [] = []"
  "sends_of sender (act # acts) = send_of sender act @ sends_of sender acts"
  "sends_of sender (acts @ acts') = sends_of sender acts @ sends_of sender acts'"
  by (simp_all add: sends_of_def)

lemma timers_perform:
  "timers (perform sender rx act s) = timers s @ map (\<lambda>message. (1, Submit message)) (send_of sender act)"
  by (cases act) simp_all

lemma timers_perform_all:
  "timers (perform_all sender rx acts s) =
     timers s @ map (\<lambda>message. (1, Submit message)) (sends_of sender acts)"
  unfolding perform_all_def
  by (induction acts arbitrary: s) (simp_all add: timers_perform)

lemma started_perform: "started (perform sender rx act s) = (started s \<and> act \<noteq> Stop)"
  by (cases act) simp_all

lemma started_perform_all:
  "started (perform_all sender rx acts s) = (started s \<and> Stop \<notin> set acts)"
  unfolding perform_all_def
  by (induction acts arbitrary: s) (auto simp: started_perform)

lemma receivers_perform_other:
  "rx' \<noteq> rx \<Longrightarrow> receivers (perform sender rx act s) rx' = receivers s rx'"
  by (cases act) simp_all

lemma receivers_perform_all_other:
  "rx' \<noteq> rx \<Longrightarrow> receivers (perform_all sender rx acts s) rx' = receivers s rx'"
  unfolding perform_all_def
  by (induction acts arbitrary: s) (simp_all add: receivers_perform_other)

lemma receivers_perform_all_own:
  "receivers (perform_all sender rx acts s) rx =
     (receivers s rx)\<lparr>Receiver.func := callback_after (Receiver.func (receivers s rx)) acts\<rparr>"
  unfolding perform_all_def
proof (induction acts arbitrary: s)
  case Nil
  then show ?case by simp
next
  case (Cons act acts)
  then show ?case
    by (cases act) (simp_all add: Receiver_on_def)
qed

lemma perform_arrays_update:
  "perform sender rx act (s\<lparr>arrays := A\<rparr>) = (perform sender rx act s)\<lparr>arrays := A\<rparr>"
  by (cases act)
    (simp_all add: Sender_send_def setTimeout_def System_stop_def Receiver_on_at_def Let_def)

lemma perform_all_arrays_update:
  "perform_all sender rx acts (s\<lparr>arrays := A\<rparr>) = (perform_all sender rx acts s)\<lparr>arrays := A\<rparr>"
  unfolding perform_all_def
  by (induction acts arbitrary: s) (simp_all add: perform_arrays_update)

lemma perform_all_shift:
  "perform_all sender rx acts (s\<lparr>arrays := A, trace := es\<rparr>) =
     (perform_all sender rx acts (s\<lparr>trace := es\<rparr>))\<lparr>arrays := A\<rparr>"
proof -
  have "s\<lparr>arrays := A, trace := es\<rparr> = (s\<lparr>trace := es\<rparr>)\<lparr>arrays := A\<rparr>"
    by simp
  then show ?thesis
    by (simp only: perform_all_arrays_update)
qed

lemma call_in_order_Cons:
  "call_in_order r rx (message # rest) s =
     call_in_order r rx rest
       (perform_all \<lparr>Sender.address = Receiver.address (receivers s rx)\<rparr> rx
          (Receiver.func (receivers s rx) (msg_from message) (msg_value message))
          (s\<lparr>trace := trace s @ [Delivered r rx message]\<rparr>))"
  by (simp add: call_in_order_def)

lemma drain_call_in_order:
  "drain r rx s = call_in_order r rx (arrays s r) (s\<lparr>arrays := (arrays s)(r := [])\<rparr>)"
proof (induction r rx s rule: drain.induct)
  case (1 r rx s)
  show ?case
  proof (cases "arrays s r")
    case Nil
    then have "(arrays s)(r := []) = arrays s"
      by auto
    with Nil show ?thesis
      by (simp add: drain_Nil call_in_order_def)
  next
    case (Cons message rest)
    let ?acts = "Receiver.func (receivers s rx) (msg_from message) (msg_value message)"
    let ?sender = "\<lparr>Sender.address = Receiver.address (receivers s rx)\<rparr>"
    let ?u = "perform_all ?sender rx ?acts (s\<lparr>trace := trace s @ [Delivered r rx message]\<rparr>)"
    let ?t = "deliver rx message
       (s\<lparr>arrays := (arrays s)(r := rest), trace := trace s @ [Delivered r rx message]\<rparr>)"
    have t: "?t = ?u\<lparr>arrays := (arrays s)(r := rest)\<rparr>"
      by (simp add: deliver_def Receiver_unwrap_def perform_all_shift)
    have u: "call_in_order r rx (message # rest) (s\<lparr>arrays := (arrays s)(r := [])\<rparr>) =
        call_in_order r rx rest (?u\<lparr>arrays := (arrays s)(r := [])\<rparr>)"
      by (simp add: call_in_order_Cons perform_all_shift)
    have "drain r rx s = drain r rx ?t"
      using Cons by (rule drain_Cons)
    also have "\<dots> = call_in_order r rx (arrays ?t r) (?t\<lparr>arrays := (arrays ?t)(r := [])\<rparr>)"
      by (rule "1.IH" [OF Cons])
    also have "\<dots> = call_in_order r rx rest (?u\<lparr>arrays := (arrays s)(r := [])\<rparr>)"
      by (simp add: t)
    finally have "drain r rx s = call_in_order r rx rest (?u\<lparr>arrays := (arrays s)(r := [])\<rparr>)" .
    then show ?thesis
      by (simp only: Cons u)
  qed
qed

section \<open>References into the heap\<close>

lemma refs_ok_new: "refs_ok (System_new a)"
  by (simp add: refs_ok_def System_new_def)

lemma refs_ok_apply_op: "refs_ok s \<Longrightarrow> refs_ok (apply_op op s)"
  by (cases op) (auto simp: refs_ok_def less_Suc_eq)

lemma refs_ok_run: "refs_ok s \<Longrightarrow> refs_ok (run ops s)"
  by (rule run_preserves) (simp_all add: refs_ok_apply_op)

section \<open>Every loop has a mailbox\<close>

lemma waiting_simps [simp]:
  "waiting (Sender_send sender dest v s) = waiting s"
  "waiting (System_stop s) = waiting s"
  "waiting (Receiver_on_at rx f s) = waiting s"
  "waiting (System_mount a actor s) = waiting s"
  "waiting (router message s) = waiting s"
  "waiting (loop_check r rx s) = waiting s"
  "waiting (s\<lparr>started := flag\<rparr>) = waiting s"
  "waiting (s\<lparr>arrays := A, trace := es\<rparr>) = waiting s"
  "waiting (s\<lparr>receivers := R, next_receiver := n, trace := es\<rparr>) = waiting s"
  "waiting (setTimeout (LoopStart a rx) ms s) = insert a (waiting s)"
  by (simp_all add: waiting_def loop_check_def)

lemma waiting_perform [simp]: "waiting (perform sender rx act s) = waiting s"
  by (cases act) simp_all

lemma waiting_perform_all [simp]: "waiting (perform_all sender rx acts s) = waiting s"
  by (rule perform_all_preserves [where P = "\<lambda>t. waiting t = waiting s"]) simp_all

lemma waiting_deliver [simp]: "waiting (deliver rx message s) = waiting s"
  by (simp add: deliver_def)

lemma waiting_drain [simp]: "waiting (drain r rx s) = waiting s"
  by (rule drain_preserves [where P = "\<lambda>t. waiting t = waiting s"]) simp_all

lemma waiting_run_task: "waiting (run_task t s) = waiting s"
  by (cases t) (simp_all split: option.split)

lemma waiting_tick: "waiting (tick s) \<subseteq> waiting s"
proof (cases "timers s")
  case Nil
  then show ?thesis by (simp add: tick_def)
next
  case (Cons p rest)
  then have "waiting (s\<lparr>timers := rest\<rparr>) \<subseteq> waiting s"
    by (auto simp: waiting_def)
  with Cons show ?thesis
    by (cases p) (simp add: tick_def waiting_run_task)
qed

lemma mailboxes_ok_new: "mailboxes_ok (System_new a)"
  by (simp add: mailboxes_ok_def waiting_def System_new_def)

lemma mailboxes_ok_start_actor:
  assumes "mailboxes_ok s" and "fst entry \<in> dom (messages s)"
  shows "mailboxes_ok (start_actor entry s)"
  using assms by (simp add: mailboxes_ok_def start_actor_def Let_def)

lemma mailboxes_ok_fold_start_actor:
  assumes "mailboxes_ok s" and "fst ` set entries \<subseteq> dom (messages s)"
  shows "mailboxes_ok (fold start_actor entries s)"
  using assms
proof (induction entries arbitrary: s)
  case Nil
  then show ?case by simp
next
  case (Cons entry entries)
  then have "mailboxes_ok (start_actor entry s)"
    by (simp add: mailboxes_ok_start_actor)
  then show ?case
    using Cons.IH [of "start_actor entry s"] Cons.prems by simp
qed

lemma mailboxes_ok_System_start:
  assumes "mailboxes_ok s"
  shows "mailboxes_ok (snd (System_start s))"
proof -
  have "mailboxes_ok (s\<lparr>started := True\<rparr>)"
    using assms by (simp add: mailboxes_ok_def)
  then have "mailboxes_ok (fold start_actor (actors s) (s\<lparr>started := True\<rparr>))"
    using assms by (intro mailboxes_ok_fold_start_actor) (simp_all add: mailboxes_ok_def)
  moreover have "mailboxes_ok (snd (start_system u))" if "mailboxes_ok u" for u :: "'a state"
    using that by (simp add: mailboxes_ok_def start_system_def Let_def waiting_def setTimeout_def)
  ultimately show ?thesis
    by (simp add: System_start_def start_actors_def)
qed

lemma mailboxes_ok_apply_op:
  assumes "mailboxes_ok s"
  shows "mailboxes_ok (apply_op op s)"
proof (cases op)
  case (Mount a actor)
  have "set (map fst (AList.update a actor (actors s))) \<subseteq> insert a (set (map fst (actors s)))"
    by (auto simp: update_keys)
  then have "fst ` set (AList.update a actor (actors s)) \<subseteq> insert a (fst ` set (actors s))"
    by simp
  then show ?thesis
    using assms Mount by (auto simp: mailboxes_ok_def)
next
  case Start
  then show ?thesis using assms by (simp add: mailboxes_ok_System_start)
next
  case StopOp
  then show ?thesis using assms by (simp add: mailboxes_ok_def)
next
  case (SendOp a dest v)
  then show ?thesis using assms by (simp add: mailboxes_ok_def)
next
  case (OnOp rx f)
  then show ?thesis using assms by (simp add: mailboxes_ok_def)
next
  case Tick
  then show ?thesis using assms waiting_tick [of s] by (auto simp: mailboxes_ok_def)
qed

lemma mailboxes_ok_run: "mailboxes_ok (run ops (System_new name))"
  by (rule run_preserves [where P = mailboxes_ok])
    (simp_all add: mailboxes_ok_new mailboxes_ok_apply_op)

lemma loops_have_mailbox:
  assumes "(ms, LoopStart a rx) \<in> set (timers (run ops (System_new name)))"
  shows "\<exists>r. messages (run ops (System_new name)) a = Some r"
proof -
  have "a \<in> waiting (run ops (System_new name))"
    using assms by (force simp: waiting_def)
  then show ?thesis
    using mailboxes_ok_run [of ops name] by (auto simp: mailboxes_ok_def)
qed

section \<open>The raw receiver never rejects a subscription\<close>

text \<open>
  C1. The first \<open>on\<close> of a receiver made by \<open>channel()\<close> registers the callback. A second
  \<open>on\<close> on the same receiver does not raise: \<open>subscribed\<close> is never set, so the call
  succeeds again and replaces the callback, and a send then runs the second callback.
\<close>

theorem ChannelReceiver_on_twice:
  "ChannelReceiver_on f channel = Inr (channel\<lparr>ChannelReceiver.func := f\<rparr>) \<and>
   ChannelReceiver_on g (channel\<lparr>ChannelReceiver.func := f\<rparr>)
     = Inr (channel\<lparr>ChannelReceiver.func := g\<rparr>) \<and>
   on_each [f, g] channel = Inr (channel\<lparr>ChannelReceiver.func := g\<rparr>) \<and>
   ChannelSender_send (channel\<lparr>ChannelReceiver.func := g\<rparr>) v s = g v s"
  by (simp add: ChannelReceiver_on_def channel_def ChannelReceiver_new_def
      ChannelSender_send_def ChannelReceiver_dispatch_def)

section \<open>Sending is deferred\<close>

text \<open>
  C3. \<open>send(to, value)\<close> on a sender of address \<open>a\<close> builds the envelope
  \<open>{from: a, to, value}\<close> and sets one timer of delay 1 that will submit it; nothing else
  changes in the call, so no mailbox receives anything in the caller's context. The call
  has no failing branch. When that timer runs, the envelope reaches the router handler.
\<close>

theorem Sender_send_defers:
  "Sender_send \<lparr>Sender.address = a\<rparr> dest v s =
     s\<lparr>timers := timers s @ [(1, Submit \<lparr>msg_from = a, msg_to = dest, msg_value = v\<rparr>)],
       trace := trace s @ [Sent \<lparr>msg_from = a, msg_to = dest, msg_value = v\<rparr>]\<rparr> \<and>
   arrays (Sender_send \<lparr>Sender.address = a\<rparr> dest v s) = arrays s \<and>
   tick (s\<lparr>timers := [(1, Submit \<lparr>msg_from = a, msg_to = dest, msg_value = v\<rparr>)]\<rparr>) =
     router \<lparr>msg_from = a, msg_to = dest, msg_value = v\<rparr> (s\<lparr>timers := []\<rparr>)"
  by (simp add: Sender_send_def setTimeout_def tick_def Let_def)

section \<open>The router handler\<close>

text \<open>
  C4. The router handler appends an envelope at the tail of the mailbox of its \<open>to\<close>
  address when \<open>messages\<close> has one, and otherwise drops it: the state, and so every
  mailbox, is unchanged, and there is no error.
\<close>

theorem router_known_or_dropped:
  "(messages s (msg_to message) = Some r \<longrightarrow>
      router message s = s\<lparr>arrays := (arrays s)(r := arrays s r @ [message])\<rparr>) \<and>
   (messages s (msg_to message) = None \<longrightarrow> router message s = s)"
  by (simp add: router_def)

theorem router_known_or_dropped_witness:
  "arrays (router \<lparr>msg_from = ''A'', msg_to = ''system'', msg_value = (1::nat)\<rparr>
      (router \<lparr>msg_from = ''B'', msg_to = ''system'', msg_value = 0\<rparr> (System_new ''system''))) 0
     = [\<lparr>msg_from = ''B'', msg_to = ''system'', msg_value = 0\<rparr>,
        \<lparr>msg_from = ''A'', msg_to = ''system'', msg_value = 1\<rparr>] \<and>
   router \<lparr>msg_from = ''A'', msg_to = ''nobody'', msg_value = (1::nat)\<rparr> (System_new ''system'')
     = System_new ''system''"
  using router_known_or_dropped
    [of "router \<lparr>msg_from = ''B'', msg_to = ''system'', msg_value = 0\<rparr> (System_new ''system'')"
        "\<lparr>msg_from = ''A'', msg_to = ''system'', msg_value = (1::nat)\<rparr>" 0]
    router_known_or_dropped
    [of "System_new ''system''" "\<lparr>msg_from = ''B'', msg_to = ''system'', msg_value = (0::nat)\<rparr>" 0]
    router_known_or_dropped
    [of "System_new ''system''" "\<lparr>msg_from = ''A'', msg_to = ''nobody'', msg_value = (1::nat)\<rparr>"]
  by (simp add: System_new_def)

section \<open>Stopping\<close>

text \<open>
  C9. \<open>stop()\<close> sets \<open>started\<close> to false and changes nothing else: the actor registry,
  the map \<open>messages\<close>, the contents of every mailbox and the system's address are as
  before.
\<close>

theorem System_stop_frame:
  "System_stop s = s\<lparr>started := False\<rparr> \<and>
   started (System_stop s) = False \<and>
   actors (System_stop s) = actors s \<and>
   messages (System_stop s) = messages s \<and>
   arrays (System_stop s) = arrays s \<and>
   address (System_stop s) = address s \<and>
   mailbox (System_stop s) = mailbox s \<and>
   timers (System_stop s) = timers s \<and>
   receivers (System_stop s) = receivers s"
  by (simp add: System_stop_def mailbox_def fun_eq_iff)

section \<open>The addressed receiver overwrites its callback\<close>

lemma receiver_address_perform [simp]:
  "Receiver.address (receivers (perform sender rx act s) rx') = Receiver.address (receivers s rx')"
  by (cases act) (simp_all add: Receiver_on_def)

lemma receiver_address_perform_all [simp]:
  "Receiver.address (receivers (perform_all sender rx acts s) rx') = Receiver.address (receivers s rx')"
  by (rule perform_all_preserves) simp_all

lemma fold_Receiver_on_at:
  "fs \<noteq> [] \<Longrightarrow>
   receivers (fold (Receiver_on_at rx) fs s) = (receivers s)(rx := Receiver_on (last fs) (receivers s rx))"
proof (induction fs rule: rev_induct)
  case Nil
  then show ?case by simp
next
  case (snoc f fs)
  show ?case
  proof (cases "fs = []")
    case True
    then show ?thesis by simp
  next
    case False
    then show ?thesis using snoc.IH by (auto simp: Receiver_on_def fun_eq_iff)
  qed
qed

text \<open>
  C5. \<open>on\<close> of an addressed receiver is an assignment and cannot fail. After any
  non-empty sequence of calls the callback registered is the last one given, the address
  is unchanged, and the next envelope delivered is unwrapped into \<open>(from, value)\<close> and
  handed to that last callback.
\<close>

theorem Receiver_on_overwrites:
  "fs \<noteq> [] \<Longrightarrow>
   Receiver.func (receivers (fold (Receiver_on_at rx) fs s) rx) = last fs \<and>
   Receiver.address (receivers (fold (Receiver_on_at rx) fs s) rx) = Receiver.address (receivers s rx) \<and>
   Receiver_unwrap (fold Receiver_on fs r) message = last fs (msg_from message) (msg_value message) \<and>
   deliver rx message (fold (Receiver_on_at rx) fs s) =
     perform_all \<lparr>Sender.address = Receiver.address (receivers s rx)\<rparr> rx
       (last fs (msg_from message) (msg_value message)) (fold (Receiver_on_at rx) fs s)"
proof -
  assume fs: "fs \<noteq> []"
  have obj: "fold Receiver_on fs r = Receiver_on (last fs) r"
    using fs
  proof (induction fs rule: rev_induct)
    case Nil
    then show ?case by simp
  next
    case (snoc f fs)
    then show ?case by (cases "fs = []") (simp_all add: Receiver_on_def)
  qed
  show ?thesis
    using fs
    by (simp add: fold_Receiver_on_at obj deliver_def Receiver_unwrap_def Receiver_on_def)
qed


theorem Receiver_on_overwrites_witness:
  "timers (deliver 0 \<lparr>msg_from = ''A'', msg_to = ''system'', msg_value = (5::nat)\<rparr>
     (fold (Receiver_on_at 0) [\<lambda>from v. [Send ''X'' v], \<lambda>from v. [Send from (v + 1)]]
        (snd (System_start (System_new ''system'')))))
   = [(1, LoopStart ''system'' 0),
      (1, Submit \<lparr>msg_from = ''system'', msg_to = ''A'', msg_value = 6\<rparr>)]"
  using Receiver_on_overwrites
    [of "[\<lambda>from v. [Send ''X'' v], \<lambda>from (v::nat). [Send from (v + 1)]]" 0
        "snd (System_start (System_new ''system''))" "Receiver_new ''system''"
        "\<lparr>msg_from = ''A'', msg_to = ''system'', msg_value = (5::nat)\<rparr>"]
  by (simp add: System_start_def start_system_def start_actors_def System_new_def
      Receiver_new_def perform_all_def Let_def)


section \<open>The lifecycle of the started flag\<close>

lemma started_perform_stopped: "\<not> started s \<Longrightarrow> \<not> started (perform sender rx act s)"
  by (cases act) simp_all

lemma started_perform_all_stopped: "\<not> started s \<Longrightarrow> \<not> started (perform_all sender rx acts s)"
  by (rule perform_all_preserves [where P = "\<lambda>t. \<not> started t"])
    (simp_all add: started_perform_stopped)

lemma started_deliver_stopped: "\<not> started s \<Longrightarrow> \<not> started (deliver rx message s)"
  by (simp add: deliver_def started_perform_all_stopped)

lemma started_drain_stopped: "\<not> started s \<Longrightarrow> \<not> started (drain r rx s)"
  by (rule drain_preserves [where P = "\<lambda>t. \<not> started t"])
    (simp_all add: started_deliver_stopped)

lemma started_run_task_stopped: "\<not> started s \<Longrightarrow> \<not> started (run_task t s)"
  by (cases t) (simp_all add: started_drain_stopped split: option.split)

lemma started_tick_stopped: "\<not> started s \<Longrightarrow> \<not> started (tick s)"
  by (simp add: tick_def started_run_task_stopped split: list.split)

lemma started_apply_op_stopped: "op \<noteq> Start \<Longrightarrow> \<not> started s \<Longrightarrow> \<not> started (apply_op op s)"
  by (cases op) (simp_all add: started_tick_stopped)

lemma started_run_stopped: "Start \<notin> set ops \<Longrightarrow> \<not> started s \<Longrightarrow> \<not> started (run ops s)"
  unfolding run_def
proof (induction ops arbitrary: s)
  case Nil
  then show ?case by simp
next
  case (Cons op ops)
  from Cons.prems have "op \<noteq> Start"
    by auto
  with Cons.prems have "\<not> started (apply_op op s)"
    by (simp add: started_apply_op_stopped)
  then show ?case
    using Cons.IH Cons.prems by simp
qed

lemma started_perform_no_Stop: "act \<noteq> Stop \<Longrightarrow> started (perform sender rx act s) = started s"
  by (cases act) simp_all

lemma started_perform_all_no_Stop:
  "Stop \<notin> set acts \<Longrightarrow> started (perform_all sender rx acts s) = started s"
  unfolding perform_all_def
proof (induction acts arbitrary: s)
  case Nil
  then show ?case by simp
next
  case (Cons act acts)
  from Cons.prems have "act \<noteq> Stop"
    by auto
  then show ?case
    using Cons.IH Cons.prems by (simp add: started_perform_no_Stop)
qed

lemma started_start_actor_no_Stop:
  "Stop \<notin> set (snd entry) \<Longrightarrow> started (start_actor entry s) = started s"
  by (simp add: start_actor_def Let_def started_perform_all_no_Stop)

lemma started_fold_start_actor_no_Stop:
  "Stop \<notin> set (concat (map snd entries)) \<Longrightarrow> started (fold start_actor entries s) = started s"
  by (induction entries arbitrary: s) (simp_all add: started_start_actor_no_Stop)

text \<open>
  C8, as stated, fails: \<open>start()\<close> assigns \<open>started = true\<close> with no guard, so a second
  \<open>start()\<close> after \<open>stop()\<close> sets the flag again.
\<close>

theorem started_true_again:
  "started (run [Start] (System_new ''system'' :: nat state)) = True \<and>
   started (run [Start, StopOp] (System_new ''system'' :: nat state)) = False \<and>
   started (run [Start, StopOp, Start] (System_new ''system'' :: nat state)) = True"
  by code_simp

text \<open>
  C8, amended. The flag is false at construction; \<open>start()\<close> sets it, and it is set
  when \<open>start()\<close> returns unless the \<open>run\<close> of a mounted actor calls \<open>stop()\<close>;
  \<open>stop()\<close> clears it; once clear it stays clear through every sequence of mounts,
  stops, sends, subscriptions and timer callbacks, and only another \<open>start()\<close> sets it
  again.
\<close>

theorem started_lifecycle:
  "started (System_new a) = False \<and>
   (Stop \<notin> set (concat (map snd (actors s))) \<longrightarrow> started (snd (System_start s)) = True) \<and>
   started (System_stop s) = False \<and>
   (\<not> started s \<and> Start \<notin> set ops \<longrightarrow> started (run ops s) = False)"
proof -
  have "started (System_new a) = False"
    by (simp add: System_new_def)
  moreover have "started (snd (System_start s)) = True"
    if "Stop \<notin> set (concat (map snd (actors s)))"
    using that
    by (simp add: System_start_def start_system_def start_actors_def Let_def
        started_fold_start_actor_no_Stop)
  moreover have "started (run ops s) = False" if "\<not> started s" "Start \<notin> set ops"
    using that started_run_stopped by blast
  ultimately show ?thesis
    by simp
qed

theorem started_lifecycle_witness:
  "started (snd (System_start (System_mount ''A'' [On (\<lambda>from v. [Send from (v::nat)])]
      (System_new ''system'')))) = True \<and>
   started (run [Tick, SendOp ''system'' ''A'' 1, Tick, Mount ''B'' [], Tick, Tick]
      (System_stop (snd (System_start (System_mount ''A'' [On (\<lambda>from v. [Send from (v::nat)])]
      (System_new ''system'')))))) = False"
  using started_lifecycle
    [of "''system''" "System_mount ''A'' [On (\<lambda>from v. [Send from (v::nat)])] (System_new ''system'')" "[]"]
    started_lifecycle
    [of "''system''"
      "System_stop (snd (System_start (System_mount ''A'' [On (\<lambda>from v. [Send from (v::nat)])]
      (System_new ''system''))))" "[Tick, SendOp ''system'' ''A'' 1, Tick, Mount ''B'' [], Tick, Tick]"]
  by (simp add: System_new_def)


section \<open>Starting runs every mounted actor once\<close>

lemma ran_perform [simp]: "ran (perform sender rx act s) = ran s"
  by (cases act) (simp_all add: ran_def)

lemma ran_perform_all [simp]: "ran (perform_all sender rx acts s) = ran s"
  by (rule perform_all_preserves [where P = "\<lambda>t. ran t = ran s"]) simp_all

lemma ran_deliver [simp]: "ran (deliver rx message s) = ran s"
  by (simp add: deliver_def)

lemma ran_shift [simp]:
  "ran (s\<lparr>arrays := A, trace := trace s @ [Delivered r rx message]\<rparr>) = ran s"
  by (simp add: ran_def)

lemma ran_drain [simp]: "ran (drain r rx s) = ran s"
  by (rule drain_preserves [where P = "\<lambda>t. ran t = ran s"]) simp_all

lemma ran_run_task [simp]: "ran (run_task t s) = ran s"
proof (cases t)
  case (Submit message)
  then show ?thesis by (simp add: ran_def)
next
  case (LoopStart a rx)
  then show ?thesis by (simp add: ran_def split: option.split)
next
  case (LoopResume r rx)
  have "ran (loop_check r rx (drain r rx s)) = ran (drain r rx s)"
    by (simp add: ran_def)
  with LoopResume show ?thesis by simp
qed

lemma ran_tick [simp]: "ran (tick s) = ran s"
proof (cases "timers s")
  case Nil
  then show ?thesis by (simp add: tick_def)
next
  case (Cons p rest)
  have "ran (s\<lparr>timers := rest\<rparr>) = ran s"
    by (simp add: ran_def)
  with Cons show ?thesis
    by (cases p) (simp add: tick_def)
qed

lemma ran_apply_op: "op \<noteq> Start \<Longrightarrow> ran (apply_op op s) = ran s"
proof (cases op)
  case (Mount a actor)
  then show ?thesis by (simp add: ran_def)
next
  case Start
  assume "op \<noteq> Start"
  with Start show ?thesis by simp
next
  case StopOp
  then show ?thesis by (simp add: ran_def)
next
  case (SendOp a dest v)
  then show ?thesis by (simp add: ran_def)
next
  case (OnOp rx f)
  then show ?thesis by (simp add: ran_def)
next
  case Tick
  then show ?thesis by simp
qed

lemma ran_start_actor:
  "ran (start_actor entry s) =
     ran s @ [(fst entry, snd entry, \<lparr>Sender.address = fst entry\<rparr>, next_receiver s)]"
proof -
  have "ran (setTimeout t ms u) = ran u" for t ms and u :: "'a state"
    by (simp add: ran_def)
  then show ?thesis
    by (simp add: start_actor_def Let_def) (simp add: ran_def)
qed

lemma ran_fold_start_actor:
  "ran (fold start_actor entries s) =
     ran s @ map (\<lambda>(entry, rx). (fst entry, snd entry, \<lparr>Sender.address = fst entry\<rparr>, rx))
       (zip entries [next_receiver s ..< next_receiver s + length entries])"
proof (induction entries arbitrary: s)
  case Nil
  then show ?case by simp
next
  case (Cons entry entries)
  have "[next_receiver s ..< next_receiver s + length (entry # entries)] =
        next_receiver s # [Suc (next_receiver s) ..< Suc (next_receiver s) + length entries]"
    by (subst upt_rec) simp
  then show ?case
    by (simp add: Cons.IH ran_start_actor)
qed

lemma receiver_address_start_actor:
  "Receiver.address (receivers (start_actor entry s) rx) =
     (if rx = next_receiver s then fst entry else Receiver.address (receivers s rx))"
  by (simp add: start_actor_def Let_def Receiver_new_def)

lemma receiver_address_fold_start_actor_old:
  "rx < next_receiver s \<Longrightarrow>
   Receiver.address (receivers (fold start_actor entries s) rx) = Receiver.address (receivers s rx)"
  by (induction entries arbitrary: s) (simp_all add: receiver_address_start_actor)

lemma receiver_address_fold_start_actor_new:
  "i < length entries \<Longrightarrow>
   Receiver.address (receivers (fold start_actor entries s) (next_receiver s + i)) = fst (entries ! i)"
proof (induction entries arbitrary: s i)
  case Nil
  then show ?case by simp
next
  case (Cons entry entries)
  show ?case
  proof (cases i)
    case 0
    then show ?thesis
      by (simp add: receiver_address_fold_start_actor_old receiver_address_start_actor)
  next
    case (Suc j)
    with Cons.prems have "j < length entries" by simp
    from Cons.IH [OF this, of "start_actor entry s"] Suc show ?thesis
      by simp
  qed
qed

lemma distinct_actors_apply_op:
  "distinct (map fst (actors s)) \<Longrightarrow> distinct (map fst (actors (apply_op op s)))"
  by (cases op) (simp_all add: distinct_update)

lemma distinct_actors_run: "distinct (map fst (actors (run ops (System_new name))))"
  by (rule run_preserves [where P = "\<lambda>t. distinct (map fst (actors t))"])
    (simp_all add: System_new_def distinct_actors_apply_op)

lemma timers_start_actor:
  "timers (start_actor entry s) =
     timers s @ map (\<lambda>message. (1, Submit message)) (sends_of \<lparr>Sender.address = fst entry\<rparr> (snd entry))
       @ [(1, LoopStart (fst entry) (next_receiver s))]"
  by (simp add: start_actor_def Let_def timers_perform_all)

lemma timers_fold_start_actor:
  "timers (fold start_actor entries s) =
     timers s @ concat (map (\<lambda>(entry, rx).
        map (\<lambda>message. (1, Submit message)) (sends_of \<lparr>Sender.address = fst entry\<rparr> (snd entry))
          @ [(1, LoopStart (fst entry) rx)])
       (zip entries [next_receiver s ..< next_receiver s + length entries]))"
proof (induction entries arbitrary: s)
  case Nil
  then show ?case by simp
next
  case (Cons entry entries)
  have "[next_receiver s ..< next_receiver s + length (entry # entries)] =
        next_receiver s # [Suc (next_receiver s) ..< Suc (next_receiver s) + length entries]"
    by (subst upt_rec) simp
  then show ?case
    by (simp add: Cons.IH timers_start_actor)
qed

lemma started_start_actor:
  "started (start_actor entry s) = (started s \<and> Stop \<notin> set (snd entry))"
  by (simp add: start_actor_def Let_def started_perform_all)

lemma started_fold_start_actor:
  "started (fold start_actor entries s) = (started s \<and> Stop \<notin> set (concat (map snd entries)))"
  by (induction entries arbitrary: s) (auto simp: started_start_actor)

lemma receivers_start_actor:
  "receivers (start_actor entry s) rx =
     (if rx = next_receiver s
      then \<lparr>Receiver.address = fst entry, func = callback_after (\<lambda>_ _. []) (snd entry)\<rparr>
      else receivers s rx)"
  by (simp add: start_actor_def Let_def receivers_perform_all_own receivers_perform_all_other
      Receiver_new_def)

lemma receivers_fold_start_actor_old:
  "rx < next_receiver s \<Longrightarrow> receivers (fold start_actor entries s) rx = receivers s rx"
  by (induction entries arbitrary: s) (simp_all add: receivers_start_actor)

lemma receivers_fold_start_actor_new:
  "i < length entries \<Longrightarrow>
   receivers (fold start_actor entries s) (next_receiver s + i) =
     \<lparr>Receiver.address = fst (entries ! i), func = callback_after (\<lambda>_ _. []) (snd (entries ! i))\<rparr>"
proof (induction entries arbitrary: s i)
  case Nil
  then show ?case by simp
next
  case (Cons entry entries)
  show ?case
  proof (cases i)
    case 0
    then show ?thesis
      by (simp add: receivers_fold_start_actor_old receivers_start_actor)
  next
    case (Suc j)
    with Cons.prems have "j < length entries" by simp
    from Cons.IH [OF this, of "start_actor entry s"] Suc show ?thesis
      by simp
  qed
qed

text \<open>
  C7, as stated, fails. An actor mounted before \<open>start()\<close> is not run at all when a
  later \<open>mount\<close> at the same address has replaced it: of the two actors mounted at
  \<open>A\<close> only the second is run, and only its send is made. And one actor mounted at two
  addresses is run twice, once for each.
\<close>

theorem replaced_actor_never_run:
  "ran (run [Mount ''A'' [Send ''B'' 7], Mount ''A'' [Send ''B'' 9], Start]
      (System_new ''system'' :: nat state))
     = [(''A'', [Send ''B'' 9], \<lparr>Sender.address = ''A''\<rparr>, 0)] \<and>
   timers (run [Mount ''A'' [Send ''B'' 7], Mount ''A'' [Send ''B'' 9], Start]
      (System_new ''system'' :: nat state))
     = [(1, Submit \<lparr>msg_from = ''A'', msg_to = ''B'', msg_value = 9\<rparr>),
        (1, LoopStart ''A'' 0), (1, LoopStart ''system'' 1)] \<and>
   ran (run [Mount ''A'' [Send ''B'' 7], Mount ''C'' [Send ''B'' 7], Start]
      (System_new ''system'' :: nat state))
     = [(''A'', [Send ''B'' 7], \<lparr>Sender.address = ''A''\<rparr>, 0),
        (''C'', [Send ''B'' 7], \<lparr>Sender.address = ''C''\<rparr>, 1)]"
  by (simp add: run_def System_new_def System_start_def start_system_def start_actors_def
      start_actor_def perform_all_def ran_def Let_def)

text \<open>
  C7, amended. One call of \<open>start()\<close> calls \<open>run\<close> exactly once for each address of the
  registry, in insertion order and before it returns, on the actor the registry holds for
  that address (the one mounted there last), with a sender and a new receiver that both
  carry that address. What the runs do is done then: their sends are on the timer
  queue in order, each followed by the timer of that address's drain loop; the flag is
  false afterwards exactly when some run has called \<open>stop()\<close>; each new receiver holds
  the callback its run registered last. No operation other than \<open>start()\<close>, and no
  timer callback, calls \<open>run\<close>.
\<close>

theorem System_start_runs_registry:
  "ran (snd (System_start s)) =
     ran s @ map (\<lambda>(entry, rx). (fst entry, snd entry, \<lparr>Sender.address = fst entry\<rparr>, rx))
       (zip (actors s) [next_receiver s ..< next_receiver s + length (actors s)]) \<and>
   timers (snd (System_start s)) =
     timers s @ concat (map (\<lambda>(entry, rx).
        map (\<lambda>message. (1, Submit message)) (sends_of \<lparr>Sender.address = fst entry\<rparr> (snd entry))
          @ [(1, LoopStart (fst entry) rx)])
       (zip (actors s) [next_receiver s ..< next_receiver s + length (actors s)]))
     @ [(1, LoopStart (address s) (next_receiver s + length (actors s)))] \<and>
   started (snd (System_start s)) = (Stop \<notin> set (concat (map snd (actors s)))) \<and>
   (\<forall>i < length (actors s).
      receivers (snd (System_start s)) (next_receiver s + i) =
        \<lparr>Receiver.address = fst (actors s ! i),
         func = callback_after (\<lambda>_ _. []) (snd (actors s ! i))\<rparr>) \<and>
   (op \<noteq> Start \<longrightarrow> ran (apply_op op s) = ran s) \<and>
   map_of (actors (System_mount a actor s)) a = Some actor \<and>
   distinct (map fst (actors (run ops (System_new name))))"
proof -
  let ?s0 = "s\<lparr>started := True\<rparr>"
  have ran_sys: "ran (snd (start_system u)) = ran u" for u :: "'a state"
    by (simp add: start_system_def Let_def ran_def)
  have ran_flag: "ran ?s0 = ran s"
    by (simp add: ran_def)
  have one: "ran (snd (System_start s)) =
     ran s @ map (\<lambda>(entry, rx). (fst entry, snd entry, \<lparr>Sender.address = fst entry\<rparr>, rx))
       (zip (actors s) [next_receiver s ..< next_receiver s + length (actors s)])"
    using ran_fold_start_actor [of "actors s" ?s0]
    by (simp add: System_start_def start_actors_def ran_sys ran_flag)
  have two: "timers (snd (System_start s)) =
     timers s @ concat (map (\<lambda>(entry, rx).
        map (\<lambda>message. (1, Submit message)) (sends_of \<lparr>Sender.address = fst entry\<rparr> (snd entry))
          @ [(1, LoopStart (fst entry) rx)])
       (zip (actors s) [next_receiver s ..< next_receiver s + length (actors s)]))
     @ [(1, LoopStart (address s) (next_receiver s + length (actors s)))]"
    using timers_fold_start_actor [of "actors s" ?s0]
    by (simp add: System_start_def start_actors_def start_system_def Let_def)
  have three: "started (snd (System_start s)) = (Stop \<notin> set (concat (map snd (actors s))))"
    using started_fold_start_actor [of "actors s" ?s0]
    by (simp add: System_start_def start_actors_def start_system_def Let_def)
  have four: "receivers (snd (System_start s)) (next_receiver s + i) =
        \<lparr>Receiver.address = fst (actors s ! i),
         func = callback_after (\<lambda>_ _. []) (snd (actors s ! i))\<rparr>"
    if "i < length (actors s)" for i
    using that receivers_fold_start_actor_new [of i "actors s" ?s0]
    by (simp add: System_start_def start_actors_def start_system_def Let_def)
  have five: "map_of (actors (System_mount a actor s)) a = Some actor"
    by (simp add: update_conv')
  show ?thesis
    using one two three four five ran_apply_op distinct_actors_run by blast
qed

theorem System_start_runs_registry_witness:
  "timers (snd (System_start
      (run [Mount ''A'' [On (\<lambda>from v. [Send from v]), Send ''B'' (5::nat)], Mount ''B'' [Stop]]
         (System_new ''system''))))
     = [(1, Submit \<lparr>msg_from = ''A'', msg_to = ''B'', msg_value = 5\<rparr>),
        (1, LoopStart ''A'' 0), (1, LoopStart ''B'' 1), (1, LoopStart ''system'' 2)] \<and>
   started (snd (System_start
      (run [Mount ''A'' [On (\<lambda>from v. [Send from v]), Send ''B'' (5::nat)], Mount ''B'' [Stop]]
         (System_new ''system'')))) = False \<and>
   Receiver.func (receivers (snd (System_start
      (run [Mount ''A'' [On (\<lambda>from v. [Send from v]), Send ''B'' (5::nat)], Mount ''B'' [Stop]]
         (System_new ''system'')))) 0) ''C'' 8 = [Send ''C'' 8] \<and>
   ran (run [Tick, Tick] (snd (System_start
      (run [Mount ''A'' [On (\<lambda>from v. [Send from v]), Send ''B'' (5::nat)], Mount ''B'' [Stop]]
         (System_new ''system'')))))
     = [(''A'', [On (\<lambda>from v. [Send from v]), Send ''B'' 5], \<lparr>Sender.address = ''A''\<rparr>, 0),
        (''B'', [Stop], \<lparr>Sender.address = ''B''\<rparr>, 1)]"
proof -
  let ?s = "run [Mount ''A'' [On (\<lambda>from v. [Send from v]), Send ''B'' (5::nat)], Mount ''B'' [Stop]]
         (System_new ''system'')"
  have a: "actors ?s = [(''A'', [On (\<lambda>from v. [Send from v]), Send ''B'' 5]), (''B'', [Stop])]"
    by (simp add: run_def System_new_def)
  have b: "timers ?s = []" "next_receiver ?s = 0" "address ?s = ''system''" "ran ?s = []"
    by (simp_all add: run_def System_new_def ran_def)
  have upt: "[0..<2] = [0, Suc 0]"
    by (simp add: upt_rec)
  note start = System_start_runs_registry [where s = ?s and op = Tick and ops = "[]"
      and name = "''system''" and a = "''A''" and actor = "[]"]
  have r: "ran (snd (System_start ?s)) =
      [(''A'', [On (\<lambda>from v. [Send from v]), Send ''B'' 5], \<lparr>Sender.address = ''A''\<rparr>, 0),
       (''B'', [Stop], \<lparr>Sender.address = ''B''\<rparr>, 1)]"
    using start [THEN conjunct1] by (simp add: a b upt)
  have t: "timers (snd (System_start ?s))
     = [(1, Submit \<lparr>msg_from = ''A'', msg_to = ''B'', msg_value = 5\<rparr>),
        (1, LoopStart ''A'' 0), (1, LoopStart ''B'' 1), (1, LoopStart ''system'' 2)]"
    using start [THEN conjunct2, THEN conjunct1] by (simp add: a b upt)
  have f: "started (snd (System_start ?s)) = False"
    using start [THEN conjunct2, THEN conjunct2, THEN conjunct1] by (simp add: a)
  have c: "Receiver.func (receivers (snd (System_start ?s)) 0) ''C'' 8 = [Send ''C'' 8]"
    using start [THEN conjunct2, THEN conjunct2, THEN conjunct2, THEN conjunct1, rule_format, of 0]
    by (simp add: a b)
  have t1: "ran (tick (snd (System_start ?s))) = ran (snd (System_start ?s))"
    using System_start_runs_registry [where s = "snd (System_start ?s)" and op = Tick and ops = "[]"
        and name = "''system''" and a = "''A''" and actor = "[]"]
    by simp
  have t2: "ran (tick (tick (snd (System_start ?s)))) = ran (tick (snd (System_start ?s)))"
    using System_start_runs_registry [where s = "tick (snd (System_start ?s))" and op = Tick and ops = "[]"
        and name = "''system''" and a = "''A''" and actor = "[]"]
    by simp
  show ?thesis
    using r t f c t1 t2 by (simp add: run_def)
qed


section \<open>The order of envelopes is kept\<close>

lemma to_address_simps [simp]:
  "to_address b [] = []"
  "to_address b (xs @ ys) = to_address b xs @ to_address b ys"
  "to_address b (message # xs) =
     (if msg_to message = b then message # to_address b xs else to_address b xs)"
  by (simp_all add: to_address_def)

lemma subseq_prefix_part: "subseq (xs @ ys) zs \<Longrightarrow> subseq xs zs"
  by (metis subseq_order.trans prefix_imp_subseq prefixI)

lemma subseq_snoc_both: "subseq xs ys \<Longrightarrow> subseq (xs @ [x]) (ys @ [x])"
  by simp

lemma subseq_snoc_both3:
  "subseq (xs @ ys @ zs) ws \<Longrightarrow> subseq (xs @ ys @ zs @ [x]) (ws @ [x])"
  using subseq_snoc_both [of "xs @ ys @ zs" ws x] by simp

lemma subseq_snoc_right: "subseq xs ys \<Longrightarrow> subseq xs (ys @ zs)"
  by (rule subseq_rev_drop_many)

lemma sent_simps [simp]:
  "sent (setTimeout t ms s) = sent s"
  "sent (Sender_send sender dest v s) =
     sent s @ [\<lparr>msg_from = Sender.address sender, msg_to = dest, msg_value = v\<rparr>]"
  "sent (System_stop s) = sent s"
  "sent (Receiver_on_at rx f s) = sent s"
  "sent (router message s) = sent s"
  "sent (loop_check r rx s) = sent s"
  "sent (System_mount a actor s) = sent s"
  "sent (s\<lparr>timers := ts\<rparr>) = sent s"
  "sent (s\<lparr>started := flag\<rparr>) = sent s"
  "sent (s\<lparr>arrays := A, trace := trace s @ [Delivered r rx message]\<rparr>) = sent s"
  by (simp_all add: sent_def)

lemma pending_simps [simp]:
  "pending (setTimeout (Submit message) ms s) = pending s @ [message]"
  "pending (setTimeout (LoopStart a rx) ms s) = pending s"
  "pending (setTimeout (LoopResume r rx) ms s) = pending s"
  "pending (Sender_send sender dest v s) =
     pending s @ [\<lparr>msg_from = Sender.address sender, msg_to = dest, msg_value = v\<rparr>]"
  "pending (System_stop s) = pending s"
  "pending (Receiver_on_at rx f s) = pending s"
  "pending (router message s) = pending s"
  "pending (loop_check r rx s) = pending s"
  "pending (System_mount a actor s) = pending s"
  "pending (s\<lparr>started := flag\<rparr>) = pending s"
  "pending (s\<lparr>arrays := A, trace := es\<rparr>) = pending s"
  by (simp_all add: pending_def loop_check_def)

lemma drained_simps [simp]:
  "drained r (setTimeout t ms s) = drained r s"
  "drained r (Sender_send sender dest v s) = drained r s"
  "drained r (System_stop s) = drained r s"
  "drained r (Receiver_on_at rx f s) = drained r s"
  "drained r (router message s) = drained r s"
  "drained r (loop_check r' rx s) = drained r s"
  "drained r (System_mount a actor s) = drained r s"
  "drained r (s\<lparr>timers := ts\<rparr>) = drained r s"
  "drained r (s\<lparr>started := flag\<rparr>) = drained r s"
  "drained r (s\<lparr>arrays := A, trace := trace s @ [Delivered r' rx message]\<rparr>) =
     drained r s @ (if r' = r then [message] else [])"
  by (simp_all add: drained_def)

lemma observed_simps [simp]:
  "observed rx (setTimeout t ms s) = observed rx s"
  "observed rx (Sender_send sender dest v s) = observed rx s"
  "observed rx (System_stop s) = observed rx s"
  "observed rx (Receiver_on_at rx' f s) = observed rx s"
  "observed rx (router message s) = observed rx s"
  "observed rx (loop_check r rx' s) = observed rx s"
  "observed rx (System_mount a actor s) = observed rx s"
  "observed rx (s\<lparr>timers := ts\<rparr>) = observed rx s"
  "observed rx (s\<lparr>started := flag\<rparr>) = observed rx s"
  "observed rx (s\<lparr>arrays := A, trace := trace s @ [Delivered r rx' message]\<rparr>) =
     observed rx s @ (if rx' = rx then [message] else [])"
  by (simp_all add: observed_def)

lemma fifo_inv_new: "fifo_inv (System_new a)"
  by (simp add: fifo_inv_def refs_ok_new resumes_ok_def drained_fresh_def pending_ordered_def
      flow_ordered_def flow_def)
    (simp add: System_new_def drained_def pending_def sent_def)

lemma flow_ordered_Sender_send:
  assumes "flow_ordered s"
  shows "flow_ordered (Sender_send sender dest v s)"
  unfolding flow_ordered_def
proof (intro allI)
  fix r b
  have old: "subseq (flow r b s) (to_address b (sent s))"
    using assms by (simp add: flow_ordered_def)
  show "subseq (flow r b (Sender_send sender dest v s))
          (to_address b (sent (Sender_send sender dest v s)))"
  proof (cases "messages s b = Some r")
    case True
    with old show ?thesis by (simp add: flow_def subseq_snoc_both3)
  next
    case False
    with old show ?thesis by (simp add: flow_def subseq_snoc_right)
  qed
qed

lemma fifo_inv_Sender_send:
  assumes "fifo_inv s"
  shows "fifo_inv (Sender_send sender dest v s)"
proof -
  have "refs_ok (Sender_send sender dest v s)"
    using assms by (simp add: fifo_inv_def refs_ok_def)
  moreover have "resumes_ok (Sender_send sender dest v s)"
    using assms by (auto simp: fifo_inv_def resumes_ok_def)
  moreover have "drained_fresh (Sender_send sender dest v s)"
    using assms by (simp add: fifo_inv_def drained_fresh_def)
  moreover have "pending_ordered (Sender_send sender dest v s)"
    using assms by (simp add: fifo_inv_def pending_ordered_def)
  moreover have "flow_ordered (Sender_send sender dest v s)"
    using assms by (simp add: fifo_inv_def flow_ordered_Sender_send)
  ultimately show ?thesis
    by (simp add: fifo_inv_def)
qed

lemma fifo_inv_frame:
  assumes "fifo_inv s"
    and "messages t = messages s" "next_array t = next_array s" "arrays t = arrays s"
    and "sent t = sent s" "pending t = pending s" "\<And>r. drained r t = drained r s"
    and "resumes_ok t"
  shows "fifo_inv t"
proof -
  have "flow r b t = flow r b s" for r b
    by (simp add: flow_def assms)
  then show ?thesis
    using assms
    by (simp add: fifo_inv_def refs_ok_def drained_fresh_def pending_ordered_def flow_ordered_def)
qed

lemma fifo_inv_System_stop:
  assumes "fifo_inv s"
  shows "fifo_inv (System_stop s)"
  by (rule fifo_inv_frame [OF assms]) (use assms in \<open>simp_all add: fifo_inv_def resumes_ok_def\<close>)

lemma fifo_inv_Receiver_on_at:
  assumes "fifo_inv s"
  shows "fifo_inv (Receiver_on_at rx f s)"
  by (rule fifo_inv_frame [OF assms]) (use assms in \<open>simp_all add: fifo_inv_def resumes_ok_def\<close>)

lemma fifo_inv_perform: "fifo_inv s \<Longrightarrow> fifo_inv (perform sender rx act s)"
  by (cases act) (simp_all add: fifo_inv_Sender_send fifo_inv_System_stop fifo_inv_Receiver_on_at)

lemma fifo_inv_perform_all: "fifo_inv s \<Longrightarrow> fifo_inv (perform_all sender rx acts s)"
  by (rule perform_all_preserves [where P = fifo_inv]) (simp_all add: fifo_inv_perform)

lemma fifo_inv_deliver: "fifo_inv s \<Longrightarrow> fifo_inv (deliver rx message s)"
  by (simp add: deliver_def fifo_inv_perform_all)

lemma pending_timers [simp]: "pending (s\<lparr>timers := ts\<rparr>) = concat (map pending_task ts)"
  by (simp add: pending_def)

lemma fifo_inv_shift:
  assumes "fifo_inv s" and "arrays s r = message # rest" and "r < next_array s"
  shows "fifo_inv (s\<lparr>arrays := (arrays s)(r := rest),
                     trace := trace s @ [Delivered r rx message]\<rparr>)"
    (is "fifo_inv ?t")
proof -
  have "refs_ok ?t"
    using assms by (simp add: fifo_inv_def refs_ok_def)
  moreover have "resumes_ok ?t"
    using assms by (simp add: fifo_inv_def resumes_ok_def)
  moreover have "drained_fresh ?t"
    using assms by (simp add: fifo_inv_def drained_fresh_def)
  moreover have "pending_ordered ?t"
    using assms by (simp add: fifo_inv_def pending_ordered_def)
  moreover have "flow r' b ?t = flow r' b s" for r' b
    using assms(2) by (simp add: flow_def)
  then have "flow_ordered ?t"
    using assms by (simp add: fifo_inv_def flow_ordered_def)
  ultimately show ?thesis
    by (simp add: fifo_inv_def)
qed

lemma fifo_inv_drain:
  assumes "fifo_inv s" and "r < next_array s"
  shows "fifo_inv (drain r rx s)"
proof -
  have "fifo_inv (drain r rx s) \<and> r < next_array (drain r rx s)"
  proof (rule drain_preserves [where P = "\<lambda>t. fifo_inv t \<and> r < next_array t"])
    show "fifo_inv s \<and> r < next_array s"
      using assms by simp
  next
    fix t :: "'a state" and message rest
    assume "fifo_inv t \<and> r < next_array t" and "arrays t r = message # rest"
    then show "fifo_inv (deliver rx message
        (t\<lparr>arrays := (arrays t)(r := rest), trace := trace t @ [Delivered r rx message]\<rparr>)) \<and>
      r < next_array (deliver rx message
        (t\<lparr>arrays := (arrays t)(r := rest), trace := trace t @ [Delivered r rx message]\<rparr>))"
      by (simp add: fifo_inv_deliver fifo_inv_shift)
  qed
  then show ?thesis by simp
qed

lemma fifo_inv_submit:
  assumes "fifo_inv s" and "timers s = (ms, Submit message) # rest"
  shows "fifo_inv (router message (s\<lparr>timers := rest\<rparr>))"
    (is "fifo_inv ?t")
proof -
  have pend: "pending s = message # concat (map pending_task rest)"
    using assms(2) by (simp add: pending_def)
  have pend': "pending ?t = concat (map pending_task rest)"
    by simp
  have arr: "arrays ?t r =
      (if messages s (msg_to message) = Some r then arrays s r @ [message] else arrays s r)" for r
    by (simp add: router_def split: option.split)
  have "refs_ok ?t"
    using assms by (simp add: fifo_inv_def refs_ok_def)
  moreover have "resumes_ok ?t"
    using assms by (auto simp: fifo_inv_def resumes_ok_def)
  moreover have "drained_fresh ?t"
    using assms by (simp add: fifo_inv_def drained_fresh_def)
  moreover have "pending_ordered ?t"
    unfolding pending_ordered_def
  proof
    fix b
    have "subseq (to_address b (pending s)) (to_address b (sent s))"
      using assms by (simp add: fifo_inv_def pending_ordered_def)
    then have "subseq (to_address b (concat (map pending_task rest))) (to_address b (sent s))"
      by (auto simp: pend split: if_splits dest: subseq_Cons')
    then show "subseq (to_address b (pending ?t)) (to_address b (sent ?t))"
      by simp
  qed
  moreover have "flow_ordered ?t"
    unfolding flow_ordered_def
  proof (intro allI)
    fix r b
    have old: "subseq (flow r b s) (to_address b (sent s))"
      using assms by (simp add: fifo_inv_def flow_ordered_def)
    have "flow r b ?t = flow r b s"
      if "msg_to message = b" "messages s b = Some r"
      using that by (simp add: flow_def arr pend)
    moreover have "flow r b ?t = flow r b s"
      if "msg_to message = b" "messages s b \<noteq> Some r"
      using that by (simp add: flow_def arr pend)
    moreover have "flow r b ?t = flow r b s"
      if "msg_to message \<noteq> b"
      using that by (simp add: flow_def arr pend)
    ultimately have "flow r b ?t = flow r b s"
      by blast
    with old show "subseq (flow r b ?t) (to_address b (sent ?t))"
      by simp
  qed
  ultimately show ?thesis
    by (simp add: fifo_inv_def)
qed

lemma fifo_inv_loop_check:
  assumes "fifo_inv s" and "r < next_array s"
  shows "fifo_inv (loop_check r rx s)"
  by (rule fifo_inv_frame [OF assms(1)])
    (use assms in \<open>auto simp: fifo_inv_def resumes_ok_def loop_check_def\<close>)

lemma fifo_inv_pop_loop:
  assumes "fifo_inv s" and "timers s = (ms, t) # rest" and "pending_task (ms, t) = []"
  shows "fifo_inv (s\<lparr>timers := rest\<rparr>)"
proof (rule fifo_inv_frame [OF assms(1)])
  show "pending (s\<lparr>timers := rest\<rparr>) = pending s"
    using assms by (simp add: pending_def)
  show "resumes_ok (s\<lparr>timers := rest\<rparr>)"
    using assms by (auto simp: fifo_inv_def resumes_ok_def)
qed simp_all

lemma fifo_inv_tick:
  assumes "fifo_inv s"
  shows "fifo_inv (tick s)"
proof (cases "timers s")
  case Nil
  then show ?thesis using assms by (simp add: tick_def)
next
  case (Cons p rest)
  obtain ms t where p: "p = (ms, t)" by (cases p)
  show ?thesis
  proof (cases t)
    case (Submit message)
    then show ?thesis
      using fifo_inv_submit [OF assms, of ms message rest] Cons p by (simp add: tick_def)
  next
    case (LoopStart a rx)
    have popped: "fifo_inv (s\<lparr>timers := rest\<rparr>)"
      using fifo_inv_pop_loop [OF assms, of ms t rest] Cons p LoopStart by simp
    show ?thesis
    proof (cases "messages s a")
      case None
      then show ?thesis using popped Cons p LoopStart by (simp add: tick_def)
    next
      case (Some r)
      then have "r < next_array s"
        using assms by (simp add: fifo_inv_def refs_ok_def)
      then show ?thesis
        using popped Cons p LoopStart Some by (simp add: tick_def fifo_inv_loop_check)
    qed
  next
    case (LoopResume r rx)
    have popped: "fifo_inv (s\<lparr>timers := rest\<rparr>)"
      using fifo_inv_pop_loop [OF assms, of ms t rest] Cons p LoopResume by simp
    have "r < next_array s"
      using assms Cons p LoopResume by (auto simp: fifo_inv_def resumes_ok_def)
    then show ?thesis
      using popped Cons p LoopResume
      by (simp add: tick_def fifo_inv_loop_check fifo_inv_drain)
  qed
qed

lemma fifo_inv_System_mount:
  assumes "fifo_inv s"
  shows "fifo_inv (System_mount a actor s)"
    (is "fifo_inv ?t")
proof -
  have fresh: "messages s b \<noteq> Some (next_array s)" for b
    using assms by (auto simp: fifo_inv_def refs_ok_def)
  have empty: "drained (next_array s) s = []"
    using assms by (simp add: fifo_inv_def drained_fresh_def)
  have "refs_ok ?t"
    using assms by (auto simp: fifo_inv_def refs_ok_def less_Suc_eq)
  moreover have "resumes_ok ?t"
    using assms by (auto simp: fifo_inv_def resumes_ok_def less_Suc_eq)
  moreover have "drained_fresh ?t"
    using assms by (simp add: fifo_inv_def drained_fresh_def)
  moreover have "pending_ordered ?t"
    using assms by (simp add: fifo_inv_def pending_ordered_def)
  moreover have "flow_ordered ?t"
    unfolding flow_ordered_def
  proof (intro allI)
    fix r b
    have old: "subseq (flow r b s) (to_address b (sent s))"
      using assms by (simp add: fifo_inv_def flow_ordered_def)
    have pend: "subseq (to_address b (pending s)) (to_address b (sent s))"
      using assms by (simp add: fifo_inv_def pending_ordered_def)
    have "subseq (flow r b ?t) (to_address b (sent s))"
    proof (cases "r = next_array s")
      case True
      then show ?thesis
        using pend fresh [of b] by (simp add: flow_def empty)
    next
      case False
      show ?thesis
      proof (cases "b = a")
        case True
        have "subseq (to_address b (drained r s) @ to_address b (arrays s r)) (to_address b (sent s))"
          using old subseq_prefix_part [of "to_address b (drained r s) @ to_address b (arrays s r)"]
          by (simp add: flow_def)
        with True False show ?thesis
          by (simp add: flow_def)
      next
        case b: False
        with False have "flow r b ?t = flow r b s"
          by (simp add: flow_def)
        with old show ?thesis by simp
      qed
    qed
    then show "subseq (flow r b ?t) (to_address b (sent ?t))"
      by simp
  qed
  ultimately show ?thesis
    by (simp add: fifo_inv_def)
qed

lemma fifo_inv_start_actor:
  assumes "fifo_inv s"
  shows "fifo_inv (start_actor entry s)"
proof -
  let ?s1 = "s\<lparr>receivers := (receivers s)(next_receiver s := Receiver_new (fst entry)),
               next_receiver := Suc (next_receiver s),
               trace := trace s @ [Ran (fst entry) (snd entry) \<lparr>Sender.address = fst entry\<rparr> (next_receiver s)]\<rparr>"
  have "fifo_inv ?s1"
    by (rule fifo_inv_frame [OF assms])
      (use assms in \<open>simp_all add: fifo_inv_def resumes_ok_def sent_def pending_def drained_def\<close>)
  then have s2: "fifo_inv (perform_all \<lparr>Sender.address = fst entry\<rparr> (next_receiver s) (snd entry) ?s1)"
    by (rule fifo_inv_perform_all)
  have "fifo_inv (setTimeout (LoopStart (fst entry) (next_receiver s)) 1
          (perform_all \<lparr>Sender.address = fst entry\<rparr> (next_receiver s) (snd entry) ?s1))"
    by (rule fifo_inv_frame [OF s2])
      (use s2 in \<open>auto simp: fifo_inv_def resumes_ok_def\<close>)
  then show ?thesis
    by (simp add: start_actor_def Let_def)
qed

lemma fifo_inv_System_start:
  assumes "fifo_inv s"
  shows "fifo_inv (snd (System_start s))"
proof -
  have "fifo_inv (s\<lparr>started := True\<rparr>)"
    by (rule fifo_inv_frame [OF assms]) (use assms in \<open>simp_all add: fifo_inv_def resumes_ok_def\<close>)
  then have t: "fifo_inv (fold start_actor (actors s) (s\<lparr>started := True\<rparr>))"
    by (rule start_actors_preserves [where P = fifo_inv]) (simp add: fifo_inv_start_actor)
  have "fifo_inv (snd (start_system u))" if "fifo_inv u" for u :: "'a state"
    by (rule fifo_inv_frame [OF that])
      (use that in \<open>auto simp: fifo_inv_def resumes_ok_def start_system_def Let_def
          sent_def pending_def drained_def\<close>)
  with t show ?thesis
    by (simp add: System_start_def start_actors_def)
qed

lemma fifo_inv_apply_op: "fifo_inv s \<Longrightarrow> fifo_inv (apply_op op s)"
  by (cases op)
    (simp_all add: fifo_inv_System_mount fifo_inv_System_start fifo_inv_System_stop
      fifo_inv_Sender_send fifo_inv_Receiver_on_at fifo_inv_tick)

lemma fifo_inv_run: "fifo_inv (run ops (System_new name))"
  by (rule run_preserves [where P = fifo_inv]) (simp_all add: fifo_inv_new fifo_inv_apply_op)

section \<open>Each receiver is fed from one array\<close>

lemma start_rx_loop_rx: "set (start_rx p) \<subseteq> set (loop_rx p)"
  by (cases p rule: loop_rx.cases) simp_all

lemma starts_subset_loops: "starts s \<subseteq> set (loops s)"
  using start_rx_loop_rx by (fastforce simp: starts_def loops_def)

lemma loop_inv_new: "loop_inv (System_new a)"
  by (simp add: loop_inv_def loops_def starts_def feeds_def System_new_def)

lemma loop_inv_frame:
  assumes "loop_inv s"
    and "loops t = loops s" "starts t = starts s" "feeds t = feeds s"
    and "next_receiver t = next_receiver s"
  shows "loop_inv t"
  using assms by (simp add: loop_inv_def)

lemma loop_abs_Sender_send [simp]:
  "loops (Sender_send sender dest v s) = loops s"
  "starts (Sender_send sender dest v s) = starts s"
  "feeds (Sender_send sender dest v s) = feeds s"
  by (simp_all add: loops_def starts_def feeds_def)

lemma loop_abs_System_stop [simp]:
  "loops (System_stop s) = loops s"
  "starts (System_stop s) = starts s"
  "feeds (System_stop s) = feeds s"
  by (simp_all add: loops_def starts_def feeds_def)

lemma loop_abs_Receiver_on_at [simp]:
  "loops (Receiver_on_at rx f s) = loops s"
  "starts (Receiver_on_at rx f s) = starts s"
  "feeds (Receiver_on_at rx f s) = feeds s"
  by (simp_all add: loops_def starts_def feeds_def)

lemma loop_abs_System_mount [simp]:
  "loops (System_mount a actor s) = loops s"
  "starts (System_mount a actor s) = starts s"
  "feeds (System_mount a actor s) = feeds s"
  by (simp_all add: loops_def starts_def feeds_def)

lemma loop_abs_router [simp]:
  "loops (router message s) = loops s"
  "starts (router message s) = starts s"
  "feeds (router message s) = feeds s"
  by (simp_all add: loops_def starts_def feeds_def)

lemma loop_abs_perform [simp]:
  "loops (perform sender rx act s) = loops s"
  "starts (perform sender rx act s) = starts s"
  "feeds (perform sender rx act s) = feeds s"
  by (cases act; simp)+

lemma loop_abs_perform_all [simp]:
  "loops (perform_all sender rx acts s) = loops s"
  "starts (perform_all sender rx acts s) = starts s"
  "feeds (perform_all sender rx acts s) = feeds s"
proof -
  show "loops (perform_all sender rx acts s) = loops s"
    by (rule perform_all_preserves [where P = "\<lambda>t. loops t = loops s"]) simp_all
  show "starts (perform_all sender rx acts s) = starts s"
    by (rule perform_all_preserves [where P = "\<lambda>t. starts t = starts s"]) simp_all
  show "feeds (perform_all sender rx acts s) = feeds s"
    by (rule perform_all_preserves [where P = "\<lambda>t. feeds t = feeds s"]) simp_all
qed

lemma loop_abs_deliver [simp]:
  "loops (deliver rx message s) = loops s"
  "starts (deliver rx message s) = starts s"
  "feeds (deliver rx message s) = feeds s"
  by (simp_all add: deliver_def)

lemma loop_abs_shift [simp]:
  "loops (s\<lparr>arrays := A, trace := trace s @ [Delivered r rx message]\<rparr>) = loops s"
  "starts (s\<lparr>arrays := A, trace := trace s @ [Delivered r rx message]\<rparr>) = starts s"
  "feeds (s\<lparr>arrays := A, trace := trace s @ [Delivered r rx message]\<rparr>) = insert (rx, r) (feeds s)"
  by (simp_all add: loops_def starts_def feeds_def)

lemma draining_deliver: "draining r rx s \<Longrightarrow> draining r rx (deliver rx' message s)"
  by (simp add: draining_def loop_inv_def)

lemma draining_shift:
  assumes "draining r rx s"
  shows "draining r rx (s\<lparr>arrays := A, trace := trace s @ [Delivered r rx message]\<rparr>)"
proof -
  have "rx \<notin> starts s"
    using assms starts_subset_loops [of s] by (auto simp: draining_def)
  then show ?thesis
    using assms by (auto simp: draining_def loop_inv_def)
qed

lemma draining_drain: "draining r rx s \<Longrightarrow> draining r rx (drain r rx s)"
  by (rule drain_preserves [where P = "draining r rx"])
    (simp_all add: draining_deliver draining_shift)

lemma loop_inv_resume:
  assumes "draining r rx s"
  shows "loop_inv (loop_check r rx s)"
proof (cases "started s")
  case False
  then show ?thesis using assms by (simp add: loop_check_def draining_def)
next
  case True
  have no_start: "rx \<notin> starts s"
    using assms starts_subset_loops [of s] by (auto simp: draining_def)
  have l: "loops (loop_check r rx s) = loops s @ [rx]"
    using True by (simp add: loop_check_def loops_def)
  have st: "starts (loop_check r rx s) = starts s"
    using True by (simp add: loop_check_def starts_def)
  have f: "feeds (loop_check r rx s) = insert (rx, r) (feeds s)"
    using True by (simp add: loop_check_def feeds_def)
  show ?thesis
    using assms no_start unfolding loop_inv_def draining_def l st f
    by auto
qed

lemma loop_inv_tick:
  assumes "loop_inv s"
  shows "loop_inv (tick s)"
proof (cases "timers s")
  case Nil
  then show ?thesis using assms by (simp add: tick_def)
next
  case (Cons p rest)
  obtain ms t where p: "p = (ms, t)" by (cases p)
  let ?s' = "s\<lparr>timers := rest\<rparr>"
  have l: "loops s = loop_rx (ms, t) @ loops ?s'"
    using Cons p by (simp add: loops_def)
  have st: "starts s = set (start_rx (ms, t)) \<union> starts ?s'"
    using Cons p by (simp add: starts_def)
  have f: "feeds s = set (feed_task (ms, t)) \<union> feeds ?s'"
    using Cons p by (auto simp: feeds_def)
  have nr: "next_receiver ?s' = next_receiver s"
    by simp
  have popped: "loop_inv ?s'"
    using assms unfolding loop_inv_def l st f nr by auto
  show ?thesis
  proof (cases t)
    case (Submit message)
    have "loop_inv (router message ?s')"
      by (rule loop_inv_frame [OF popped]) simp_all
    then show ?thesis
      using Cons p Submit by (simp add: tick_def)
  next
    case (LoopStart a rx)
    show ?thesis
    proof (cases "messages s a")
      case None
      then show ?thesis
        using popped Cons p LoopStart by (simp add: tick_def)
    next
      case (Some r)
      have "draining r rx ?s'"
        using assms popped unfolding loop_inv_def draining_def l st f nr LoopStart
        by auto
      then have "loop_inv (loop_check r rx ?s')"
        by (rule loop_inv_resume)
      then show ?thesis
        using Cons p LoopStart Some by (simp add: tick_def)
    qed
  next
    case (LoopResume r rx)
    have "draining r rx ?s'"
      using assms popped unfolding loop_inv_def draining_def l st f nr LoopResume
      by auto
    then have "draining r rx (drain r rx ?s')"
      by (rule draining_drain)
    then have "loop_inv (loop_check r rx (drain r rx ?s'))"
      by (rule loop_inv_resume)
    then show ?thesis
      using Cons p LoopResume by (simp add: tick_def)
  qed
qed

lemma loop_inv_new_loop:
  assumes "loop_inv s" and "next_receiver t = Suc (next_receiver s)"
    and "loops t = loops s" "starts t = starts s" "feeds t = feeds s"
  shows "loop_inv (setTimeout (LoopStart a (next_receiver s)) 1 t)"
    (is "loop_inv ?u")
proof -
  have l: "loops ?u = loops s @ [next_receiver s]"
    using assms by (simp add: loops_def)
  have st: "starts ?u = insert (next_receiver s) (starts s)"
    using assms by (simp add: starts_def)
  have f: "feeds ?u = feeds s"
    using assms by (simp add: feeds_def)
  have nr: "next_receiver ?u = Suc (next_receiver s)"
    using assms by simp
  show ?thesis
    using assms(1) unfolding loop_inv_def l st f nr
    by (auto simp: less_Suc_eq)
qed

lemma loop_abs_ran [simp]:
  "loops (s\<lparr>receivers := R, next_receiver := n, trace := trace s @ [Ran a actor sender rx]\<rparr>) = loops s"
  "starts (s\<lparr>receivers := R, next_receiver := n, trace := trace s @ [Ran a actor sender rx]\<rparr>) = starts s"
  "feeds (s\<lparr>receivers := R, next_receiver := n, trace := trace s @ [Ran a actor sender rx]\<rparr>) = feeds s"
  by (simp_all add: loops_def starts_def feeds_def)

lemma loop_inv_start_actor:
  assumes "loop_inv s"
  shows "loop_inv (start_actor entry s)"
proof -
  let ?s1 = "s\<lparr>receivers := (receivers s)(next_receiver s := Receiver_new (fst entry)),
               next_receiver := Suc (next_receiver s),
               trace := trace s @ [Ran (fst entry) (snd entry) \<lparr>Sender.address = fst entry\<rparr> (next_receiver s)]\<rparr>"
  let ?s2 = "perform_all \<lparr>Sender.address = fst entry\<rparr> (next_receiver s) (snd entry) ?s1"
  have "loop_inv (setTimeout (LoopStart (fst entry) (next_receiver s)) 1 ?s2)"
  proof (rule loop_inv_new_loop [OF assms])
    show "next_receiver ?s2 = Suc (next_receiver s)" by simp
    show "loops ?s2 = loops s" by simp
    show "starts ?s2 = starts s" by simp
    show "feeds ?s2 = feeds s" by simp
  qed
  then show ?thesis
    by (simp add: start_actor_def Let_def)
qed

lemma loop_inv_System_start:
  assumes "loop_inv s"
  shows "loop_inv (snd (System_start s))"
proof -
  have "loop_inv (s\<lparr>started := True\<rparr>)"
    by (rule loop_inv_frame [OF assms]) (simp_all add: loops_def starts_def feeds_def)
  then have t: "loop_inv (fold start_actor (actors s) (s\<lparr>started := True\<rparr>))"
    by (rule start_actors_preserves [where P = loop_inv]) (simp add: loop_inv_start_actor)
  have "loop_inv (snd (start_system u))" if u: "loop_inv u" for u :: "'a state"
  proof -
    let ?u1 = "setTimeout (LoopStart (address u) (next_receiver u)) 1
                 (u\<lparr>next_receiver := Suc (next_receiver u)\<rparr>)"
    have "loop_inv ?u1"
      by (rule loop_inv_new_loop [OF u]) (simp_all add: loops_def starts_def feeds_def)
    moreover have "loop_inv (snd (start_system u))"
      if "loop_inv ?u1"
      by (rule loop_inv_frame [OF that])
        (simp_all add: start_system_def Let_def loops_def starts_def feeds_def setTimeout_def)
    ultimately show ?thesis by simp
  qed
  with t show ?thesis
    by (simp add: System_start_def start_actors_def)
qed

lemma loop_inv_apply_op: "loop_inv s \<Longrightarrow> loop_inv (apply_op op s)"
proof (cases op)
  case (Mount a actor)
  assume "loop_inv s"
  then have "loop_inv (System_mount a actor s)"
    by (rule loop_inv_frame) simp_all
  with Mount show ?thesis by simp
next
  case Start
  assume "loop_inv s"
  with Start show ?thesis by (simp add: loop_inv_System_start)
next
  case StopOp
  assume "loop_inv s"
  then have "loop_inv (System_stop s)"
    by (rule loop_inv_frame) simp_all
  with StopOp show ?thesis by simp
next
  case (SendOp a dest v)
  assume "loop_inv s"
  then have "loop_inv (Sender_send \<lparr>Sender.address = a\<rparr> dest v s)"
    by (rule loop_inv_frame) simp_all
  with SendOp show ?thesis by simp
next
  case (OnOp rx f)
  assume inv: "loop_inv s"
  then have "loop_inv (Receiver_on_at rx f s)"
    by (rule loop_inv_frame) simp_all
  with OnOp inv show ?thesis by simp
next
  case Tick
  assume "loop_inv s"
  with Tick show ?thesis by (simp add: loop_inv_tick)
qed

lemma loop_inv_run: "loop_inv (run ops (System_new name))"
  by (rule run_preserves [where P = loop_inv]) (simp_all add: loop_inv_new loop_inv_apply_op)

section \<open>Delivery is first in, first out\<close>

lemma observed_perform [simp]: "observed rx' (perform sender rx act s) = observed rx' s"
  by (cases act) simp_all

lemma observed_perform_all [simp]: "observed rx' (perform_all sender rx acts s) = observed rx' s"
  by (rule perform_all_preserves [where P = "\<lambda>t. observed rx' t = observed rx' s"]) simp_all

lemma observed_deliver [simp]: "observed rx' (deliver rx message s) = observed rx' s"
  by (simp add: deliver_def)

lemma drained_perform [simp]: "drained r (perform sender rx act s) = drained r s"
  by (cases act) simp_all

lemma drained_perform_all [simp]: "drained r (perform_all sender rx acts s) = drained r s"
  by (rule perform_all_preserves [where P = "\<lambda>t. drained r t = drained r s"]) simp_all

lemma drained_deliver [simp]: "drained r (deliver rx message s) = drained r s"
  by (simp add: deliver_def)

lemma drain_effect:
  "arrays (drain r rx s) r = [] \<and>
   observed rx' (drain r rx s) = observed rx' s @ (if rx = rx' then arrays s r else []) \<and>
   drained r' (drain r rx s) = drained r' s @ (if r = r' then arrays s r else [])"
proof (induction r rx s rule: drain.induct)
  case (1 r rx s)
  show ?case
  proof (cases "arrays s r")
    case Nil
    then show ?thesis by (auto simp: drain_Nil)
  next
    case (Cons message rest)
    let ?t = "deliver rx message
       (s\<lparr>arrays := (arrays s)(r := rest), trace := trace s @ [Delivered r rx message]\<rparr>)"
    have step: "drain r rx s = drain r rx ?t"
      using Cons by (rule drain_Cons)
    have a: "arrays ?t r = rest"
      by simp
    have b: "observed rx' ?t = observed rx' s @ (if rx = rx' then [message] else [])"
      by simp
    have c: "drained r' ?t = drained r' s @ (if r = r' then [message] else [])"
      by simp
    have "arrays (drain r rx ?t) r = [] \<and>
      observed rx' (drain r rx ?t) = observed rx' ?t @ (if rx = rx' then arrays ?t r else []) \<and>
      drained r' (drain r rx ?t) = drained r' ?t @ (if r = r' then arrays ?t r else [])"
      by (rule "1.IH" [OF Cons])
    then have "arrays (drain r rx ?t) r = [] \<and>
      observed rx' (drain r rx ?t) =
        (observed rx' s @ (if rx = rx' then [message] else [])) @ (if rx = rx' then rest else []) \<and>
      drained r' (drain r rx ?t) =
        (drained r' s @ (if r = r' then [message] else [])) @ (if r = r' then rest else [])"
      unfolding a b c .
    then show ?thesis
      unfolding step using Cons by auto
  qed
qed

lemma loops_drain [simp]: "loops (drain r rx s) = loops s"
  by (rule drain_preserves [where P = "\<lambda>t. loops t = loops s"]) simp_all

lemma observed_subseq_drained:
  "\<forall>r message. Delivered r rx message \<in> set es \<longrightarrow> r = R \<Longrightarrow>
   subseq (concat (map (observed_ev rx) es)) (concat (map (drained_ev R) es))"
proof (induction es)
  case Nil
  then show ?case by simp
next
  case (Cons e es)
  have "\<forall>r message. Delivered r rx message \<in> set es \<longrightarrow> r = R"
    using Cons.prems by auto
  then have rest: "subseq (concat (map (observed_ev rx) es)) (concat (map (drained_ev R) es))"
    by (rule Cons.IH)
  have head: "subseq (observed_ev rx e) (drained_ev R e)"
  proof (cases e)
    case (Delivered r rx' message)
    then show ?thesis
      using Cons.prems by auto
  qed simp_all
  show ?case
    using list_emb_append_mono [OF head rest] by simp
qed

lemma feeds_Delivered: "Delivered r rx message \<in> set (trace s) \<Longrightarrow> (rx, r) \<in> feeds s"
  by (force simp: feeds_def)

lemma observed_subseq_some_array:
  assumes "loop_inv s"
  shows "\<exists>R. subseq (observed rx s) (drained R s)"
proof (cases "\<exists>r message. Delivered r rx message \<in> set (trace s)")
  case True
  then obtain R m where R: "Delivered R rx m \<in> set (trace s)" by blast
  have "r = R" if "Delivered r rx message \<in> set (trace s)" for r message
    using assms feeds_Delivered [OF that] feeds_Delivered [OF R]
    by (auto simp: loop_inv_def)
  then have "subseq (observed rx s) (drained R s)"
    unfolding observed_def drained_def by (intro observed_subseq_drained) blast
  then show ?thesis ..
next
  case False
  then have "subseq (observed rx s) (drained 0 s)"
    unfolding observed_def drained_def by (intro observed_subseq_drained) blast
  then show ?thesis ..
qed

lemma between_to_address:
  "between a b ms = filter (\<lambda>message. msg_from message = a) (to_address b ms)"
  by (simp add: between_def to_address_def conj_commute)

lemma drained_subseq_sent:
  assumes "fifo_inv s"
  shows "subseq (to_address b (drained R s)) (to_address b (sent s))"
proof -
  have "subseq (flow R b s) (to_address b (sent s))"
    using assms by (simp add: fifo_inv_def flow_ordered_def)
  then show ?thesis
    unfolding flow_def by (rule subseq_prefix_part)
qed

text \<open>
  C2. A drain cycle shifts the head of its array and sends it on the inbound channel
  until the array is empty: the state it leaves is the one reached by calling the
  callback of the receiver on each envelope the array held, oldest first, the actions of
  one call performed before the next call is made (\<open>call_in_order\<close>); the array is then
  empty and the receiver has been handed its contents in order. In every state the system
  reaches from its construction, whatever is mounted, sent, subscribed, started or stopped
  and however the timers interleave, the values a receiver has observed from the source
  \<open>a\<close> for the destination \<open>b\<close> are a subsequence of the values sent from \<open>a\<close> to \<open>b\<close>:
  the same relative order, nothing twice. In the example the callback of \<open>B\<close> forwards
  each value to \<open>C\<close>, and the forwarded values are submitted in the order 1, 2, 3.
\<close>

theorem drain_loop_fifo:
  "drain r rx s = call_in_order r rx (arrays s r) (s\<lparr>arrays := (arrays s)(r := [])\<rparr>) \<and>
   arrays (drain r rx s) r = [] \<and>
   observed rx (drain r rx s) = observed rx s @ arrays s r \<and>
   subseq (map msg_value (between a b (observed rx (run ops (System_new name)))))
          (map msg_value (between a b (sent (run ops (System_new name)))))"
proof -
  let ?s = "run ops (System_new name)"
  obtain R where "subseq (observed rx ?s) (drained R ?s)"
    using observed_subseq_some_array [OF loop_inv_run] by blast
  then have "subseq (to_address b (observed rx ?s)) (to_address b (drained R ?s))"
    unfolding to_address_def by (rule subseq_filter)
  also have "subseq (to_address b (drained R ?s)) (to_address b (sent ?s))"
    by (rule drained_subseq_sent [OF fifo_inv_run])
  finally have "subseq (between a b (observed rx ?s)) (between a b (sent ?s))"
    unfolding between_to_address by (rule subseq_filter)
  then have "subseq (map msg_value (between a b (observed rx ?s)))
                    (map msg_value (between a b (sent ?s)))"
    by (rule subseq_map)
  then show ?thesis
    using drain_effect [of r rx s rx r] drain_call_in_order [of r rx s] by simp
qed

theorem drain_loop_fifo_witness:
  "map msg_value (between ''A'' ''B'' (observed 0
      (run [Mount ''B'' [On (\<lambda>from v. [Send ''C'' v])], Start,
            SendOp ''A'' ''B'' 1, SendOp ''A'' ''B'' 2, SendOp ''A'' ''B'' 3,
            Tick, Tick, Tick, Tick, Tick, Tick] (System_new ''system'')))) = [1, 2, 3 :: nat] \<and>
   map msg_value (between ''B'' ''C'' (sent
      (run [Mount ''B'' [On (\<lambda>from v. [Send ''C'' v])], Start,
            SendOp ''A'' ''B'' 1, SendOp ''A'' ''B'' 2, SendOp ''A'' ''B'' 3,
            Tick, Tick, Tick, Tick, Tick, Tick] (System_new ''system'')))) = [1, 2, 3 :: nat] \<and>
   subseq [1, 2, 3 :: nat] (map msg_value (between ''A'' ''B'' (sent
      (run [Mount ''B'' [On (\<lambda>from v. [Send ''C'' v])], Start,
            SendOp ''A'' ''B'' 1, SendOp ''A'' ''B'' 2, SendOp ''A'' ''B'' 3,
            Tick, Tick, Tick, Tick, Tick, Tick] (System_new ''system'')))))"
proof -
  have observed: "map msg_value (between ''A'' ''B'' (observed 0
      (run [Mount ''B'' [On (\<lambda>from v. [Send ''C'' v])], Start,
            SendOp ''A'' ''B'' 1, SendOp ''A'' ''B'' 2, SendOp ''A'' ''B'' 3,
            Tick, Tick, Tick, Tick, Tick, Tick] (System_new ''system'')))) = [1, 2, 3 :: nat]"
    by code_simp
  have forwarded: "map msg_value (between ''B'' ''C'' (sent
      (run [Mount ''B'' [On (\<lambda>from v. [Send ''C'' v])], Start,
            SendOp ''A'' ''B'' 1, SendOp ''A'' ''B'' 2, SendOp ''A'' ''B'' 3,
            Tick, Tick, Tick, Tick, Tick, Tick] (System_new ''system'')))) = [1, 2, 3 :: nat]"
    by code_simp
  show ?thesis
    using drain_loop_fifo [where a = "''A''" and b = "''B''" and rx = 0 and name = "''system''"
      and ops = "[Mount ''B'' [On (\<lambda>from v. [Send ''C'' v])], Start,
            SendOp ''A'' ''B'' (1::nat), SendOp ''A'' ''B'' 2, SendOp ''A'' ''B'' 3,
            Tick, Tick, Tick, Tick, Tick, Tick]"
      and r = 0 and s = "System_new ''system'' :: nat state"]
      observed forwarded
    by simp
qed

section \<open>Stopping while loops run\<close>


lemma loops_pop: "timers s = p # rest \<Longrightarrow> loops s = loop_rx p @ loops (s\<lparr>timers := rest\<rparr>)"
  by (simp add: loops_def)









section \<open>Mounting\<close>

text \<open>
  C10, as stated, fails. \<open>mount\<close> puts a new array in the map and leaves the old one as
  it is; a loop that has started holds the old array, not the map. In \<open>in_flight\<close> the
  loop of \<open>B\<close> is in its delay and an envelope from \<open>A\<close> is queued for \<open>B\<close>. After \<open>B\<close>
  is mounted again the mailbox of \<open>B\<close> in the map is empty, but the envelope is still in
  the old array, and when the delay ends it is delivered to the receiver of \<open>B\<close>, whose
  callback forwards it to \<open>C\<close>: the envelope is not discarded.
\<close>

theorem mount_keeps_captured_array:
  "mailbox in_flight ''B'' = Some [\<lparr>msg_from = ''A'', msg_to = ''B'', msg_value = 1\<rparr>] \<and>
   timers in_flight = [(1, LoopResume 1 0), (1, LoopResume 0 1)] \<and>
   mailbox remounted_in_flight ''B'' = Some [] \<and>
   arrays remounted_in_flight 1 = [\<lparr>msg_from = ''A'', msg_to = ''B'', msg_value = 1\<rparr>] \<and>
   observed 0 remounted_in_flight = [] \<and>
   observed 0 (tick remounted_in_flight) = [\<lparr>msg_from = ''A'', msg_to = ''B'', msg_value = 1\<rparr>] \<and>
   sent (tick remounted_in_flight) =
     [\<lparr>msg_from = ''A'', msg_to = ''B'', msg_value = 1\<rparr>,
      \<lparr>msg_from = ''B'', msg_to = ''C'', msg_value = 1\<rparr>]"
  by code_simp

text \<open>
  C10, amended. \<open>mount(a, actor)\<close> leaves an empty mailbox at \<open>a\<close> in the map whatever was
  there before, and sets or cancels no timer. In a state where \<open>messages\<close> points only to
  allocated arrays (every state the operations can reach, by \<open>refs_ok_run\<close>), the array
  at \<open>a\<close> is a new one, the mailbox of every other address is unchanged, and no existing
  array is modified. The envelopes queued in the old array are out of reach of new loops
  and of the router, but not discarded: a loop in its delay that holds an existing array
  still calls the callback of its receiver on every envelope of that array, oldest first,
  when the delay ends after the mount.
\<close>

theorem System_mount_fresh_mailbox:
  "mailbox (System_mount a actor s) a = Some [] \<and>
   timers (System_mount a actor s) = timers s \<and>
   (refs_ok s \<longrightarrow>
      messages (System_mount a actor s) a \<noteq> messages s a \<and>
      (\<forall>b. b \<noteq> a \<longrightarrow> mailbox (System_mount a actor s) b = mailbox s b) \<and>
      (\<forall>r. r < next_array s \<longrightarrow> arrays (System_mount a actor s) r = arrays s r)) \<and>
   (timers s = (ms, LoopResume r rx) # rest \<and> r < next_array s \<longrightarrow>
      tick (System_mount a actor s) = loop_check r rx
        (call_in_order r rx (arrays s r)
          ((System_mount a actor s)\<lparr>timers := rest,
             arrays := (arrays (System_mount a actor s))(r := [])\<rparr>)) \<and>
      observed rx (tick (System_mount a actor s)) = observed rx s @ arrays s r)"
proof -
  have fresh: "messages s b \<noteq> Some (next_array s)" if "refs_ok s" for b
    using that by (auto simp: refs_ok_def)
  have other: "mailbox (System_mount a actor s) b = mailbox s b" if "refs_ok s" "b \<noteq> a" for b
    using that fresh [of b] by (cases "messages s b") (auto simp: mailbox_def)
  have map_part: "mailbox (System_mount a actor s) a = Some [] \<and>
   timers (System_mount a actor s) = timers s \<and>
   (refs_ok s \<longrightarrow>
      messages (System_mount a actor s) a \<noteq> messages s a \<and>
      (\<forall>b. b \<noteq> a \<longrightarrow> mailbox (System_mount a actor s) b = mailbox s b) \<and>
      (\<forall>r. r < next_array s \<longrightarrow> arrays (System_mount a actor s) r = arrays s r))"
    using fresh [of a] other by (auto simp: mailbox_def)
  have loop_part: "tick (System_mount a actor s) = loop_check r rx
        (call_in_order r rx (arrays s r)
          ((System_mount a actor s)\<lparr>timers := rest,
             arrays := (arrays (System_mount a actor s))(r := [])\<rparr>)) \<and>
      observed rx (tick (System_mount a actor s)) = observed rx s @ arrays s r"
    if head: "timers s = (ms, LoopResume r rx) # rest" and old: "r < next_array s"
  proof -
    let ?m = "System_mount a actor s"
    let ?m' = "?m\<lparr>timers := rest\<rparr>"
    have t: "tick ?m = loop_check r rx (drain r rx ?m')"
      using head by (simp add: tick_def)
    have arr: "arrays ?m' r = arrays s r"
      using old by simp
    have "observed rx (tick ?m) = observed rx s @ arrays s r"
      using drain_effect [of r rx ?m' rx r] arr by (simp add: t)
    moreover have "tick ?m = loop_check r rx
        (call_in_order r rx (arrays s r) (?m\<lparr>timers := rest, arrays := (arrays ?m)(r := [])\<rparr>))"
      using drain_call_in_order [of r rx ?m'] arr by (simp add: t)
    ultimately show ?thesis by simp
  qed
  show ?thesis
    using map_part loop_part by blast
qed

theorem System_mount_fresh_mailbox_witness:
  "mailbox (router \<lparr>msg_from = ''A'', msg_to = ''system'', msg_value = (1::nat)\<rparr> (System_new ''system''))
      ''system'' = Some [\<lparr>msg_from = ''A'', msg_to = ''system'', msg_value = 1\<rparr>] \<and>
   mailbox (System_mount ''system'' []
      (router \<lparr>msg_from = ''A'', msg_to = ''system'', msg_value = (1::nat)\<rparr> (System_new ''system'')))
      ''system'' = Some [] \<and>
   mailbox (System_mount ''B'' []
      (router \<lparr>msg_from = ''A'', msg_to = ''system'', msg_value = (1::nat)\<rparr> (System_new ''system'')))
      ''system'' = Some [\<lparr>msg_from = ''A'', msg_to = ''system'', msg_value = 1\<rparr>] \<and>
   observed 0 (tick remounted_in_flight) = [\<lparr>msg_from = ''A'', msg_to = ''B'', msg_value = 1\<rparr>]"
proof -
  have h1: "timers in_flight = [(1, LoopResume 1 0), (1, LoopResume 0 1)]"
    by code_simp
  have h2: "1 < next_array in_flight"
    by code_simp
  have h3: "arrays in_flight 1 = [\<lparr>msg_from = ''A'', msg_to = ''B'', msg_value = 1\<rparr>]"
    by code_simp
  have h4: "observed 0 in_flight = []"
    by code_simp
  have map_part: "mailbox (router \<lparr>msg_from = ''A'', msg_to = ''system'', msg_value = (1::nat)\<rparr> (System_new ''system''))
      ''system'' = Some [\<lparr>msg_from = ''A'', msg_to = ''system'', msg_value = 1\<rparr>] \<and>
   mailbox (System_mount ''system'' []
      (router \<lparr>msg_from = ''A'', msg_to = ''system'', msg_value = (1::nat)\<rparr> (System_new ''system'')))
      ''system'' = Some [] \<and>
   mailbox (System_mount ''B'' []
      (router \<lparr>msg_from = ''A'', msg_to = ''system'', msg_value = (1::nat)\<rparr> (System_new ''system'')))
      ''system'' = Some [\<lparr>msg_from = ''A'', msg_to = ''system'', msg_value = 1\<rparr>]"
    using System_mount_fresh_mailbox
      [where a = "''system''" and actor = "[]" and ms = 1 and r = 0 and rx = 0 and rest = "[]"
        and s = "router \<lparr>msg_from = ''A'', msg_to = ''system'', msg_value = (1::nat)\<rparr> (System_new ''system'')",
        THEN conjunct1]
      System_mount_fresh_mailbox
      [where a = "''B''" and actor = "[]" and ms = 1 and r = 0 and rx = 0 and rest = "[]"
        and s = "router \<lparr>msg_from = ''A'', msg_to = ''system'', msg_value = (1::nat)\<rparr> (System_new ''system'')",
        THEN conjunct2, THEN conjunct2, THEN conjunct1]
      refs_ok_run [OF refs_ok_new, of "[]" "''system''"]
    by (simp add: mailbox_def System_new_def router_def refs_ok_def run_def)
  have loop_part: "observed 0 (tick remounted_in_flight) = [\<lparr>msg_from = ''A'', msg_to = ''B'', msg_value = 1\<rparr>]"
    using System_mount_fresh_mailbox
      [where a = "''B''" and actor = "[]" and ms = 1 and r = 1 and rx = 0
        and rest = "[(1, LoopResume 0 1)]" and s = in_flight,
        THEN conjunct2, THEN conjunct2, THEN conjunct2, rule_format, THEN conjunct2]
      h1 h2 h3 h4
    by (simp add: remounted_in_flight_def)
  show ?thesis
    using map_part loop_part by simp
qed

end
